theory Spec2Isabelle
  imports Main
begin

section \<open>The syslog sink of the log forwarder\<close>

text \<open>
  A model of \<^verbatim>\<open>log/syslogforwarder.go\<close>. Byte slices are modelled with an explicit
  store, because \<^verbatim>\<open>splitParts\<close> rebuilds the last fragment inside the backing array of
  the message it is splitting, and because the buffers travel between the renderer, the
  pool and the sink workers. All effects (pool traffic, connection calls, log lines) are
  appended to one trace, so that their order can be stated.
\<close>

subsection \<open>Bytes, time, slices and the store\<close>

type_synonym bytes = string

text \<open>Instants are nanoseconds since the Unix epoch, durations are nanoseconds.\<close>

type_synonym instant = int
type_synonym duration = int

definition second :: duration where
  "second = 1000000000"

definition minute :: duration where
  "minute = 60 * second"

type_synonym addr = nat

text \<open>A slice header as Go keeps it: backing array, offset of the first element, length
  and capacity (counted from the offset).\<close>

record slice =
  base :: addr
  off :: nat
  len :: nat
  cap :: nat

datatype panic = SliceBoundsOutOfRange

datatype event =
    PoolGet slice
  | PoolPut slice
  | SetWriteDeadline instant
  | Write bytes
  | ConnClose
  | Errorf string

text \<open>
  The world: the backing arrays (\<open>mem\<close>, with \<open>nextAddr\<close> the first address never
  allocated), the policy by which \<^verbatim>\<open>append\<close> picks a capacity when it has to
  reallocate (left open: no property below depends on it), the contents of the
  \<^verbatim>\<open>sync.Pool\<close>, the wall clock read by \<^verbatim>\<open>time.Now()\<close>, and the trace. The
  runtime also brings the Unicode table behind \<^verbatim>\<open>strconv.IsPrint\<close>, which decides how
  \<^verbatim>\<open>%q\<close> prints a rune above \<open>U+00FF\<close>; the table is not part of the repository and is
  left open (\<open>isPrint\<close>).
\<close>

record world =
  mem :: "addr \<Rightarrow> bytes"
  nextAddr :: addr
  growslice :: "nat \<Rightarrow> nat \<Rightarrow> nat"
  pool :: "slice list"
  now :: instant
  trace :: "event list"
  isPrint :: "nat \<Rightarrow> bool"

definition zeroByte :: char where
  "zeroByte = CHR 0x00"

definition bytesOf :: "world \<Rightarrow> slice \<Rightarrow> bytes" where
  "bytesOf w s = take (len s) (drop (off s) (mem w (base s)))"

definition overwrite :: "bytes \<Rightarrow> nat \<Rightarrow> bytes \<Rightarrow> bytes" where
  "overwrite arr pos d = take pos arr @ d @ drop (pos + length d) arr"

text \<open>\<^verbatim>\<open>s[i:j]\<close>, \<^verbatim>\<open>s[:j]\<close> and \<^verbatim>\<open>s[i:]\<close>: Go checks \<open>0 \<le> i \<le> j \<le> cap(s)\<close>
  (the upper bound of \<^verbatim>\<open>s[i:]\<close> is \<open>len(s)\<close>) and panics otherwise.\<close>

definition sliceRange :: "slice \<Rightarrow> int \<Rightarrow> int \<Rightarrow> panic + slice" where
  "sliceRange s i j =
     (if 0 \<le> i \<and> i \<le> j \<and> j \<le> int (cap s)
      then Inr \<lparr>base = base s, off = off s + nat i, len = nat (j - i), cap = cap s - nat i\<rparr>
      else Inl SliceBoundsOutOfRange)"

definition sliceTo :: "slice \<Rightarrow> int \<Rightarrow> panic + slice" where
  "sliceTo s j = sliceRange s 0 j"

definition sliceFrom :: "slice \<Rightarrow> int \<Rightarrow> panic + slice" where
  "sliceFrom s i = sliceRange s i (int (len s))"

text \<open>
  \<^verbatim>\<open>append(s, d...)\<close>: in place when the capacity suffices, into a new array
  otherwise. The bytes \<open>d\<close> are read before anything is written, which is what the
  runtime's \<^verbatim>\<open>memmove\<close> guarantees when source and destination overlap.
\<close>

definition goAppend :: "slice \<Rightarrow> bytes \<Rightarrow> world \<Rightarrow> slice \<times> world" where
  "goAppend s d w =
     (let n = len s + length d in
      if n \<le> cap s
      then (s\<lparr>len := n\<rparr>,
            w\<lparr>mem := (mem w)(base s := overwrite (mem w (base s)) (off s + len s) d)\<rparr>)
      else
        let c = max n (growslice w (cap s) n);
            a = nextAddr w
        in (\<lparr>base = a, off = 0, len = n, cap = c\<rparr>,
            w\<lparr>mem := (mem w)(a := bytesOf w s @ d @ replicate (c - n) zeroByte),
              nextAddr := Suc a\<rparr>))"

text \<open>The pool's \<^verbatim>\<open>New\<close> is \<^verbatim>\<open>make([]byte, 200)\<close>. \<^verbatim>\<open>Get\<close> hands out a pooled
  slice when there is one.\<close>

definition poolNew :: "world \<Rightarrow> slice \<times> world" where
  "poolNew w =
     (let a = nextAddr w in
      (\<lparr>base = a, off = 0, len = 200, cap = 200\<rparr>,
       w\<lparr>mem := (mem w)(a := replicate 200 zeroByte), nextAddr := Suc a\<rparr>))"

definition poolGet :: "world \<Rightarrow> slice \<times> world" where
  "poolGet w =
     (case pool w of
        [] \<Rightarrow> (let (s, w') = poolNew w in (s, w'\<lparr>trace := trace w' @ [PoolGet s]\<rparr>))
      | s # rest \<Rightarrow> (s, w\<lparr>pool := rest, trace := trace w @ [PoolGet s]\<rparr>))"

definition poolPut :: "slice \<Rightarrow> world \<Rightarrow> world" where
  "poolPut s w = w\<lparr>pool := s # pool w, trace := trace w @ [PoolPut s]\<rparr>"

subsection \<open>The connection\<close>

text \<open>
  A \<^verbatim>\<open>net.Conn\<close> is the peer's behaviour: what the next \<^verbatim>\<open>SetWriteDeadline\<close> and the
  next \<^verbatim>\<open>Write\<close> answer, as functions of the number of events so far. The calls
  themselves are recorded in the trace.
\<close>

record conn =
  remoteAddr :: string
  deadlineReply :: "nat \<Rightarrow> string option"
  writeReply :: "nat \<Rightarrow> bytes \<Rightarrow> int \<times> string option"
  flushPeriod :: "duration option"

text \<open>Modelled from the spec: \<^verbatim>\<open>newBufferedConn\<close> is defined in a file of the package
  that is not among the sources. The spec says that a TCP connection is wrapped in a
  write-coalescing buffer flushed on a timer; the wrapper is recorded by its flush period,
  and its writes are recorded in the trace like any other.\<close>

definition newBufferedConn :: "conn \<Rightarrow> duration \<Rightarrow> conn" where
  "newBufferedConn c d = c\<lparr>flushPeriod := Some d\<rparr>"

definition connSetWriteDeadline :: "conn \<Rightarrow> instant \<Rightarrow> world \<Rightarrow> string option \<times> world" where
  "connSetWriteDeadline c t w =
     (deadlineReply c (length (trace w)), w\<lparr>trace := trace w @ [SetWriteDeadline t]\<rparr>)"

definition connWrite :: "conn \<Rightarrow> bytes \<Rightarrow> world \<Rightarrow> (int \<times> string option) \<times> world" where
  "connWrite c b w =
     (writeReply c (length (trace w)) b, w\<lparr>trace := trace w @ [Write b]\<rparr>)"

text \<open>
  \<^verbatim>\<open>%q\<close> as \<^verbatim>\<open>fmt\<close> prints a string (\<^verbatim>\<open>strconv.Quote\<close>). The string is read rune by
  rune. \<^verbatim>\<open>utf8.DecodeRuneInString\<close> gives the rune at the head of the string and the
  number of bytes it takes: one byte below \<open>0x80\<close>, or a lead byte \<open>0xC2..0xF4\<close> followed by
  one to three continuation bytes in the ranges that exclude overlong forms, surrogates
  and values above \<open>U+10FFFF\<close>; anything else is the error rune \<open>U+FFFD\<close> of width 1.
\<close>

definition hexDigit :: "nat \<Rightarrow> char" where
  "hexDigit n = ''0123456789abcdef'' ! (n mod 16)"

definition inRange :: "nat \<Rightarrow> nat \<Rightarrow> char \<Rightarrow> bool" where
  "inRange lo hi c = (lo \<le> (of_char c :: nat) \<and> (of_char c :: nat) \<le> hi)"

definition runeError :: nat where
  "runeError = 0xFFFD"

definition decodeRune :: "string \<Rightarrow> nat \<times> nat" where
  "decodeRune s =
     (case s of
        [] \<Rightarrow> (runeError, 0)
      | c0 # t \<Rightarrow>
          let b0 = (of_char c0 :: nat) in
          if b0 < 0x80 then (b0, 1)
          else if 0xC2 \<le> b0 \<and> b0 \<le> 0xDF then
            (case t of
               c1 # t1 \<Rightarrow>
                 if inRange 0x80 0xBF c1
                 then (b0 mod 0x20 * 0x40 + of_char c1 mod 0x40, 2)
                 else (runeError, 1)
             | [] \<Rightarrow> (runeError, 1))
          else if 0xE0 \<le> b0 \<and> b0 \<le> 0xEF then
            (case t of
               c1 # c2 # t2 \<Rightarrow>
                 if inRange (if b0 = 0xE0 then 0xA0 else 0x80) (if b0 = 0xED then 0x9F else 0xBF) c1
                    \<and> inRange 0x80 0xBF c2
                 then ((b0 mod 0x10 * 0x40 + of_char c1 mod 0x40) * 0x40 + of_char c2 mod 0x40, 3)
                 else (runeError, 1)
             | _ \<Rightarrow> (runeError, 1))
          else if 0xF0 \<le> b0 \<and> b0 \<le> 0xF4 then
            (case t of
               c1 # c2 # c3 # t3 \<Rightarrow>
                 if inRange (if b0 = 0xF0 then 0x90 else 0x80) (if b0 = 0xF4 then 0x8F else 0xBF) c1
                    \<and> inRange 0x80 0xBF c2 \<and> inRange 0x80 0xBF c3
                 then (((b0 mod 0x08 * 0x40 + of_char c1 mod 0x40) * 0x40 + of_char c2 mod 0x40)
                         * 0x40 + of_char c3 mod 0x40, 4)
                 else (runeError, 1)
             | _ \<Rightarrow> (runeError, 1))
          else (runeError, 1))"

text \<open>
  \<^verbatim>\<open>strconv.IsPrint\<close>: up to \<open>U+00FF\<close> the printable runes are \<open>0x20..0x7E\<close> and
  \<open>0xA1..0xFF\<close> without the soft hyphen \<open>0xAD\<close>; above, the table decides.
\<close>

definition strconvIsPrint :: "(nat \<Rightarrow> bool) \<Rightarrow> nat \<Rightarrow> bool" where
  "strconvIsPrint tbl r =
     (if r \<le> 0xFF then (0x20 \<le> r \<and> r < 0x7F) \<or> (0xA1 \<le> r \<and> r \<noteq> 0xAD)
      else tbl r)"

text \<open>
  \<^verbatim>\<open>appendEscapedRune\<close> for the double quote as the quote character: the quote and the
  backslash get a backslash; a printable rune is appended as it is encoded (\<open>enc\<close>, the
  bytes it was decoded from); then come the named escapes, \<^verbatim>\<open>\xNN\<close> for the other
  control characters, \<^verbatim>\<open>\uNNNN\<close> below \<open>U+10000\<close> and \<^verbatim>\<open>\UNNNNNNNN\<close> above.
\<close>

definition appendEscapedRune :: "(nat \<Rightarrow> bool) \<Rightarrow> nat \<Rightarrow> string \<Rightarrow> string" where
  "appendEscapedRune tbl r enc =
     (if r = 0x22 then [CHR 0x5C, CHR 0x22]
      else if r = 0x5C then [CHR 0x5C, CHR 0x5C]
      else if strconvIsPrint tbl r then enc
      else if r = 7 then [CHR 0x5C, CHR ''a'']
      else if r = 8 then [CHR 0x5C, CHR ''b'']
      else if r = 12 then [CHR 0x5C, CHR ''f'']
      else if r = 10 then [CHR 0x5C, CHR ''n'']
      else if r = 13 then [CHR 0x5C, CHR ''r'']
      else if r = 9 then [CHR 0x5C, CHR ''t'']
      else if r = 11 then [CHR 0x5C, CHR ''v'']
      else if r < 0x20 \<or> r = 0x7F then [CHR 0x5C, CHR ''x'', hexDigit (r div 16), hexDigit r]
      else if r < 0x10000 then
        [CHR 0x5C, CHR ''u'', hexDigit (r div 0x1000), hexDigit (r div 0x100),
         hexDigit (r div 0x10), hexDigit r]
      else
        [CHR 0x5C, CHR ''U'', hexDigit (r div 0x10000000), hexDigit (r div 0x1000000),
         hexDigit (r div 0x100000), hexDigit (r div 0x10000), hexDigit (r div 0x1000),
         hexDigit (r div 0x100), hexDigit (r div 0x10), hexDigit r])"

text \<open>
  The loop of \<^verbatim>\<open>appendQuotedWith\<close>: a byte that starts no valid sequence is printed as
  \<^verbatim>\<open>\xNN\<close>, every other rune goes through \<^verbatim>\<open>appendEscapedRune\<close>, and the loop goes on
  behind the bytes of the rune.
\<close>

function quoteRunes :: "(nat \<Rightarrow> bool) \<Rightarrow> string \<Rightarrow> string" where
  "quoteRunes tbl [] = []"
| "quoteRunes tbl (c # cs) =
     (case decodeRune (c # cs) of
        (r, width) \<Rightarrow>
          if width = 1 \<and> r = runeError
          then [CHR 0x5C, CHR ''x'', hexDigit (of_char c div 16), hexDigit (of_char c)]
                 @ quoteRunes tbl cs
          else appendEscapedRune tbl r (take width (c # cs))
                 @ quoteRunes tbl (drop (width - 1) cs))"
  by pat_completeness auto
termination by (relation "measure (\<lambda>(tbl, s). length s)") auto

definition goQuote :: "(nat \<Rightarrow> bool) \<Rightarrow> string \<Rightarrow> string" where
  "goQuote tbl s = CHR 0x22 # quoteRunes tbl s @ [CHR 0x22]"

text \<open>The strings \<^verbatim>\<open>%q\<close> leaves as they are: printable ASCII without quote or
  backslash.\<close>

definition plainChar :: "char \<Rightarrow> bool" where
  "plainChar c = (0x20 \<le> (of_char c :: nat) \<and> (of_char c :: nat) < 0x7F
     \<and> (of_char c :: nat) \<noteq> 0x22 \<and> (of_char c :: nat) \<noteq> 0x5C)"

subsection \<open>The forwarder\<close>

definition udpMessageDefaultMTU :: int where
  "udpMessageDefaultMTU = 1500"

definition udpHeaderSz :: int where
  "udpHeaderSz = 100"

text \<open>Modelled from the spec: \<^verbatim>\<open>forwardConnWriteTimeout\<close> is declared in a file of the
  package that is not among the sources; the spec gives the write deadline as about two
  seconds.\<close>

definition forwardConnWriteTimeout :: duration where
  "forwardConnWriteTimeout = 2 * second"

record url =
  scheme :: string
  host :: string
  urlString :: string

record syslogForwarder =
  furl :: url
  mtu :: int
  messageLimit :: int

record bufferWithIdx =
  buffer :: slice
  headerIdx :: int
  contentIdx :: int

datatype 'a result = Returns 'a world | Panics panic world

definition writePart :: "syslogForwarder \<Rightarrow> conn \<Rightarrow> slice \<Rightarrow> world \<Rightarrow> string option \<times> world" where
  "writePart f c buf w =
     (case connSetWriteDeadline c (now w + forwardConnWriteTimeout) w of
        (Some err, w1) \<Rightarrow> (Some err, w1)
      | (None, w1) \<Rightarrow>
          let lenMsg = int (len buf) in
          (case connWrite c (bytesOf w1 buf) w1 of
             ((n, Some err), w2) \<Rightarrow> (Some err, w2)
           | ((n, None), w2) \<Rightarrow>
               if n < lenMsg
               then (Some (''[log forwarder] short write trying to write log to ''
                             @ goQuote (isPrint w2) (remoteAddr c)), w2)
               else (None, w2)))"

text \<open>
  The \<^verbatim>\<open>for contentSz > availableSz\<close> loop of \<^verbatim>\<open>splitParts\<close>. It returns the
  error of a failed write, or the rest of the content once the loop condition fails.
  Nothing bounds the number of iterations, so the loop is a partial function: \<open>None\<close>
  is the run that never leaves the loop.
\<close>

partial_function (option) splitLoop ::
  "syslogForwarder \<Rightarrow> conn \<Rightarrow> slice \<Rightarrow> slice \<Rightarrow> int \<Rightarrow> slice \<Rightarrow> world
     \<Rightarrow> (string option \<times> slice) result option" where
  "splitLoop f c headerBuf trailerBuf availableSz contentBuf w =
     (if int (len contentBuf) > availableSz then
        (case poolGet w of (got, w1) \<Rightarrow>
         (case goAppend (got\<lparr>len := 0\<rparr>) (bytesOf w1 headerBuf) w1 of (buffer1, w2) \<Rightarrow>
          (case sliceTo contentBuf availableSz of
             Inl p \<Rightarrow> Some (Panics p w2)
           | Inr chunk \<Rightarrow>
              (case goAppend buffer1 (bytesOf w2 chunk) w2 of (buffer2, w3) \<Rightarrow>
               (case goAppend buffer2 (bytesOf w3 trailerBuf) w3 of (buffer3, w4) \<Rightarrow>
                (case writePart f c buffer3 w4 of (err, w5) \<Rightarrow>
                 (let w6 = poolPut buffer3 w5 in
                  if err \<noteq> None then Some (Returns (err, contentBuf) w6)
                  else
                    (case sliceFrom contentBuf availableSz of
                       Inl p \<Rightarrow> Some (Panics p w6)
                     | Inr rest \<Rightarrow>
                         splitLoop f c headerBuf trailerBuf availableSz rest w6))))))))
      else Some (Returns (None, contentBuf) w))"

declare splitLoop.simps [code]

definition splitParts ::
  "syslogForwarder \<Rightarrow> conn \<Rightarrow> bufferWithIdx \<Rightarrow> world \<Rightarrow> string option result option" where
  "splitParts f c bufIdx w =
     (let fullLen = int (len (buffer bufIdx)) in
      if messageLimit f \<le> 0 \<or> fullLen \<le> messageLimit f
      then (case writePart f c (buffer bufIdx) w of (err, w') \<Rightarrow> Some (Returns err w'))
      else
        (case sliceTo (buffer bufIdx) (headerIdx bufIdx) of
           Inl p \<Rightarrow> Some (Panics p w)
         | Inr headerBuf \<Rightarrow>
        (case sliceFrom (buffer bufIdx) (contentIdx bufIdx) of
           Inl p \<Rightarrow> Some (Panics p w)
         | Inr trailerBuf \<Rightarrow>
        (case sliceRange (buffer bufIdx) (headerIdx bufIdx) (contentIdx bufIdx) of
           Inl p \<Rightarrow> Some (Panics p w)
         | Inr contentBuf0 \<Rightarrow>
        (let availableSz = messageLimit f - (int (len headerBuf) + int (len trailerBuf)) in
         case splitLoop f c headerBuf trailerBuf availableSz contentBuf0 w of
           None \<Rightarrow> None
         | Some (Panics p w') \<Rightarrow> Some (Panics p w')
         | Some (Returns (Some err, contentBuf) w') \<Rightarrow> Some (Returns (Some err) w')
         | Some (Returns (None, contentBuf) w') \<Rightarrow>
             if int (len contentBuf) > 0 then
               (case goAppend headerBuf (bytesOf w' contentBuf) w' of (buffer1, w1) \<Rightarrow>
                (case goAppend buffer1 (bytesOf w1 trailerBuf) w1 of (buffer2, w2) \<Rightarrow>
                 (case writePart f c buffer2 w2 of (err, w3) \<Rightarrow> Some (Returns err w3))))
             else Some (Returns None w'))))))"

definition process ::
  "syslogForwarder \<Rightarrow> conn \<Rightarrow> bufferWithIdx \<Rightarrow> world \<Rightarrow> string option result option" where
  "process f c bufIdx w =
     (case splitParts f c bufIdx w of
        None \<Rightarrow> None
      | Some (Panics p w') \<Rightarrow> Some (Panics p w')
      | Some (Returns err w') \<Rightarrow> Some (Returns err (poolPut (buffer bufIdx) w')))"

text \<open>
  \<^verbatim>\<open>connect\<close>. \<^verbatim>\<open>net.DialTimeout\<close> is a parameter: given the scheme and the host
  of the URL it answers with an error text or with a connection; so is the Unicode table
  that \<^verbatim>\<open>%q\<close> consults (\<open>tbl\<close>). \<^verbatim>\<open>urlString\<close> is what \<^verbatim>\<open>f.url.String()\<close>
  returns. For every scheme but \<^verbatim>\<open>tcp\<close> the message limit becomes the MTU less the
  reserve.
\<close>

definition connect ::
  "(nat \<Rightarrow> bool) \<Rightarrow> (string \<Rightarrow> string \<Rightarrow> string + conn) \<Rightarrow> syslogForwarder
     \<Rightarrow> (string + conn) \<times> syslogForwarder" where
  "connect tbl dialTimeout f =
     (case dialTimeout (scheme (furl f)) (host (furl f)) of
        Inl err \<Rightarrow>
          (Inl (''[log forwarder] unable to connect to '' @ goQuote tbl (urlString (furl f))
                  @ '': '' @ err), f)
      | Inr c \<Rightarrow>
          if scheme (furl f) = ''tcp'' then (Inr (newBufferedConn c second), f)
          else (Inr c, f\<lparr>messageLimit := mtu f - udpHeaderSz\<rparr>))"

text \<open>
  The MTU that \<^verbatim>\<open>initialize\<close> gives every forwarder: the default, unless the named
  interface can be read and reports a positive MTU. \<^verbatim>\<open>net.InterfaceByName\<close> is a
  parameter that answers with an error text or with the interface's MTU.
\<close>

definition initializeMtu :: "string \<Rightarrow> (string \<Rightarrow> string + int) \<Rightarrow> int" where
  "initializeMtu mtuInterface interfaceByName =
     (if mtuInterface \<noteq> [] then
        (case interfaceByName mtuInterface of
           Inr ifaceMTU \<Rightarrow> if ifaceMTU > 0 then ifaceMTU else udpMessageDefaultMTU
         | Inl err \<Rightarrow> udpMessageDefaultMTU)
      else udpMessageDefaultMTU)"

text \<open>What a caller sees of a run: whether it panicked, and the trace it left.\<close>

fun panicked :: "'a result option \<Rightarrow> bool" where
  "panicked (Some (Panics p w)) = True"
| "panicked r = False"

fun traceOf :: "'a result option \<Rightarrow> event list" where
  "traceOf (Some (Returns x w)) = trace w"
| "traceOf (Some (Panics p w)) = trace w"
| "traceOf None = []"

subsection \<open>Rendering a record and handing it to the sinks\<close>

text \<open>
  A \<^verbatim>\<open>time.Location\<close> is the offset east of UTC, in seconds, that the zone has at a
  given Unix time (in seconds).
\<close>

type_synonym location = "int \<Rightarrow> int"

definition fixedZone :: "int \<Rightarrow> location" where
  "fixedZone offset = (\<lambda>unix. offset)"

text \<open>
  \<^verbatim>\<open>t.In(loc).Format(time.Stamp)\<close> of Go's library, layout \<^verbatim>\<open>Jan _2 15:04:05\<close>: the
  month's English abbreviation, the day of the month padded with a space to two places,
  and the time of day with two digits each, all read off the clock of the location. The
  civil date is computed from the day number in the proleptic Gregorian calendar (eras
  of 400 years that start on 1 March).
\<close>

definition civilFromDays :: "int \<Rightarrow> int \<times> int \<times> int" where
  "civilFromDays days =
     (let z = days + 719468;
          era = z div 146097;
          doe = z - era * 146097;
          yoe = (doe - doe div 1460 + doe div 36524 - doe div 146096) div 365;
          doy = doe - (365 * yoe + yoe div 4 - yoe div 100);
          mp = (5 * doy + 2) div 153;
          d = doy - (153 * mp + 2) div 5 + 1;
          m = (if mp < 10 then mp + 3 else mp - 9);
          y = yoe + era * 400 + (if m \<le> 2 then 1 else 0)
      in (y, m, d))"

definition digit :: "int \<Rightarrow> char" where
  "digit n = ''0123456789'' ! nat (n mod 10)"

definition twoDigits :: "int \<Rightarrow> string" where
  "twoDigits n = [digit (n div 10), digit n]"

definition spacePadded :: "int \<Rightarrow> string" where
  "spacePadded n = (if n < 10 then [CHR '' '', digit n] else twoDigits n)"

definition monthAbbrev :: "int \<Rightarrow> string" where
  "monthAbbrev m =
     [''Jan'', ''Feb'', ''Mar'', ''Apr'', ''May'', ''Jun'',
      ''Jul'', ''Aug'', ''Sep'', ''Oct'', ''Nov'', ''Dec''] ! nat (m - 1)"

definition formatStamp :: "location \<Rightarrow> instant \<Rightarrow> string" where
  "formatStamp loc t =
     (let unix = t div second;
          wall = unix + loc unix;
          (y, m, d) = civilFromDays (wall div 86400);
          secs = wall mod 86400
      in monthAbbrev m @ '' '' @ spacePadded d @ '' ''
         @ twoDigits (secs div 3600) @ '':'' @ twoDigits (secs mod 3600 div 60) @ '':''
         @ twoDigits (secs mod 60))"

text \<open>The fields of \<^verbatim>\<open>rawLogParts\<close> that \<^verbatim>\<open>sendMessage\<close> reads (the type is
  declared in another file of the package).\<close>

record rawLogParts =
  ts :: instant
  priority :: bytes
  content :: bytes
  container :: bytes

text \<open>Modelled from the spec: \<^verbatim>\<open>containerIDTrimSize\<close> is declared in a file of the
  package that is not among the sources; the spec gives the trim size as 12.\<close>

definition containerIDTrimSize :: nat where
  "containerIDTrimSize = 12"

text \<open>
  A channel of messages: its capacity, the messages buffered in it, and whether its
  worker is blocked receiving from it (in which case a send goes through even when the
  capacity is 0). A send inside \<^verbatim>\<open>select\<close> with a \<^verbatim>\<open>default\<close> branch either goes
  through at once or does not happen.
\<close>

record chan =
  capacity :: nat
  queue :: "bufferWithIdx list"
  receiverWaiting :: bool

definition canSend :: "chan \<Rightarrow> bool" where
  "canSend ch = (receiverWaiting ch \<or> length (queue ch) < capacity ch)"

definition trySend :: "chan \<Rightarrow> bufferWithIdx \<Rightarrow> chan option" where
  "trySend ch msg =
     (if canSend ch then Some (ch\<lparr>queue := queue ch @ [msg], receiverWaiting := False\<rparr>)
      else None)"

text \<open>
  The backend. \<^verbatim>\<open>nextNotify\<close> is a timer whose channel is read only by
  \<^verbatim>\<open>sendMessage\<close>, which resets it right after reading it: its state is the instant
  from which its channel holds a value. The pool is the world's.
\<close>

record syslogBackend =
  syslogLocation :: location
  syslogExtraStart :: bytes
  syslogExtraEnd :: bytes
  msgChans :: "chan list"
  nextNotify :: instant

definition dropNotice :: string where
  "dropNotice = ''Dropping log messages to syslog due to full channel buffer.''"

fun appendAll :: "slice \<Rightarrow> bytes list \<Rightarrow> world \<Rightarrow> slice \<times> world" where
  "appendAll s [] w = (s, w)"
| "appendAll s (d # ds) w = (case goAppend s d w of (s', w') \<Rightarrow> appendAll s' ds w')"

text \<open>The first half of \<^verbatim>\<open>sendMessage\<close>: the line is built in a pooled buffer by a
  sequence of appends, and the two indices are the lengths reached before and after the
  content.\<close>

definition render ::
  "syslogBackend \<Rightarrow> rawLogParts \<Rightarrow> string \<Rightarrow> string \<Rightarrow> world \<Rightarrow> bufferWithIdx \<times> world" where
  "render b parts appName processName w =
     (let contID = (if length (container parts) > containerIDTrimSize
                    then take containerIDTrimSize (container parts) else container parts)
      in case poolGet w of (got, w0) \<Rightarrow>
         (case appendAll (got\<lparr>len := 0\<rparr>)
                 [''<'', priority parts, ''>'',
                  formatStamp (syslogLocation b) (ts parts),
                  '' '', contID, '' '', appName, ''['', processName, '']: '',
                  syslogExtraStart b] w0 of
            (buffer1, w1) \<Rightarrow>
              let hIdx = int (len buffer1) in
              (case goAppend buffer1 (content parts) w1 of
                 (buffer2, w2) \<Rightarrow>
                   let cIdx = int (len buffer2) in
                   (case appendAll buffer2 [syslogExtraEnd b, [CHR 0x0A]] w2 of
                      (buffer3, w3) \<Rightarrow>
                        (\<lparr>buffer = buffer3, headerIdx = hIdx, contentIdx = cIdx\<rparr>, w3)))))"

text \<open>The second half, \<^verbatim>\<open>for i, ch := range b.msgChans\<close>: the last channel is offered
  the rendered buffer, every other one a copy in a buffer of the pool. A channel that
  cannot take the message leaves it dropped, and the drop is logged when the timer has
  fired, which re-arms it for a minute.\<close>

fun sendAll ::
  "bufferWithIdx \<Rightarrow> nat \<Rightarrow> nat \<Rightarrow> chan list \<Rightarrow> instant \<Rightarrow> world
     \<Rightarrow> chan list \<times> instant \<times> world" where
  "sendAll m lenSyslogs i [] timer w = ([], timer, w)"
| "sendAll m lenSyslogs i (ch # chs) timer w =
     (case (if int i = int lenSyslogs - 1 then (buffer m, w)
            else (case poolGet w of
                    (got, wa) \<Rightarrow> goAppend (got\<lparr>len := 0\<rparr>) (bytesOf wa (buffer m)) wa)) of
        (chBuffer, w1) \<Rightarrow>
          (case trySend ch (m\<lparr>buffer := chBuffer\<rparr>) of
             Some ch' \<Rightarrow>
               (case sendAll m lenSyslogs (Suc i) chs timer w1 of
                  (chs', timer', w') \<Rightarrow> (ch' # chs', timer', w'))
           | None \<Rightarrow>
               if timer \<le> now w1 then
                 (case sendAll m lenSyslogs (Suc i) chs (now w1 + minute)
                         (w1\<lparr>trace := trace w1 @ [Errorf dropNotice]\<rparr>) of
                    (chs', timer', w') \<Rightarrow> (ch # chs', timer', w'))
               else
                 (case sendAll m lenSyslogs (Suc i) chs timer w1 of
                    (chs', timer', w') \<Rightarrow> (ch # chs', timer', w'))))"

definition sendMessage ::
  "syslogBackend \<Rightarrow> rawLogParts \<Rightarrow> string \<Rightarrow> string \<Rightarrow> string \<Rightarrow> world
     \<Rightarrow> syslogBackend \<times> world" where
  "sendMessage b parts appName processName containerName w =
     (let lenSyslogs = length (msgChans b) in
      if lenSyslogs = 0 then (b, w)
      else (case render b parts appName processName w of
              (m, w1) \<Rightarrow>
                (case sendAll m lenSyslogs 0 (msgChans b) (nextNotify b) w1 of
                   (chs, timer, w2) \<Rightarrow> (b\<lparr>msgChans := chs, nextNotify := timer\<rparr>, w2))))"

text \<open>The line as the specification gives it, around a given time stamp, prefix and
  suffix.\<close>

definition specLine ::
  "string \<Rightarrow> bytes \<Rightarrow> bytes \<Rightarrow> rawLogParts \<Rightarrow> string \<Rightarrow> string \<Rightarrow> bytes" where
  "specLine stamp extraStart extraEnd parts appName processName =
     ''<'' @ priority parts @ ''>'' @ stamp @ '' ''
     @ take 12 (container parts) @ '' '' @ appName @ ''['' @ processName @ '']: ''
     @ extraStart @ content parts @ extraEnd @ [CHR 0x0A]"

subsection \<open>Starting the backend\<close>

text \<open>Modelled from the spec: \<^verbatim>\<open>processMessages\<close> is defined in a file of the package
  that is not among the sources. The spec has every dial made at start, a failure of one
  abort the start with the first error unchanged, and every sink read its messages from a
  queue of the configured size. So it connects the forwarder, hands back the error of
  \<^verbatim>\<open>connect\<close> as it is, and otherwise hands back the channel its worker reads.\<close>

definition processMessages ::
  "(nat \<Rightarrow> bool) \<Rightarrow> (string \<Rightarrow> string \<Rightarrow> string + conn) \<Rightarrow> syslogForwarder \<Rightarrow> int
     \<Rightarrow> string + chan" where
  "processMessages tbl dialTimeout f bufferSize =
     (case connect tbl dialTimeout f of
        (Inl err, f') \<Rightarrow> Inl err
      | (Inr c, f') \<Rightarrow> Inr \<lparr>capacity = nat bufferSize, queue = [], receiverWaiting = False\<rparr>)"

text \<open>
  What \<^verbatim>\<open>initialize\<close> reads through package \<^verbatim>\<open>config\<close>, each value as the helper
  returns it (the variable's value, or the default when it is unset or does not convert),
  and what it asks of the host: \<^verbatim>\<open>os.ExpandEnv\<close>, \<^verbatim>\<open>time.Local\<close>,
  \<^verbatim>\<open>time.LoadLocation\<close>, \<^verbatim>\<open>net.InterfaceByName\<close> (the interface's MTU),
  \<^verbatim>\<open>url.Parse\<close> and \<^verbatim>\<open>net.DialTimeout\<close>, each answering with an error text or a
  value, and the Unicode table of \<^verbatim>\<open>strconv.IsPrint\<close>.
\<close>

record syslogEnv =
  messageExtraStart :: string
  messageExtraEnd :: string
  bufferSize :: int
  forwardAddresses :: "string list"
  syslogTimezone :: string
  mtuNetworkInterface :: string

record syslogHost =
  osExpandEnv :: "string \<Rightarrow> string"
  timeLocal :: location
  timeLoadLocation :: "string \<Rightarrow> string + location"
  netInterfaceByName :: "string \<Rightarrow> string + int"
  urlParse :: "string \<Rightarrow> string + url"
  netDialTimeout :: "string \<Rightarrow> string \<Rightarrow> string + conn"
  unicodeIsPrint :: "nat \<Rightarrow> bool"

text \<open>
  The loop at the end of \<^verbatim>\<open>initialize\<close>, \<^verbatim>\<open>for _, addr := range forwardAddresses\<close>:
  an address that does not parse, or a forwarder that \<^verbatim>\<open>processMessages\<close> cannot
  start, ends the call with that error; the channels made so far stay in the backend.
\<close>

fun initializeForwarders ::
  "syslogHost \<Rightarrow> int \<Rightarrow> int \<Rightarrow> string list \<Rightarrow> syslogBackend \<Rightarrow> string option \<times> syslogBackend" where
  "initializeForwarders h m sz [] b = (None, b)"
| "initializeForwarders h m sz (addr # rest) b =
     (case urlParse h addr of
        Inl err \<Rightarrow>
          (Some (''unable to parse '' @ goQuote (unicodeIsPrint h) addr @ '': '' @ err), b)
      | Inr forwardUrl \<Rightarrow>
          (case processMessages (unicodeIsPrint h) (netDialTimeout h)
                  \<lparr>furl = forwardUrl, mtu = m, messageLimit = 0\<rparr> sz of
             Inl err \<Rightarrow> (Some err, b)
           | Inr forwardChan \<Rightarrow>
               initializeForwarders h m sz rest (b\<lparr>msgChans := msgChans b @ [forwardChan]\<rparr>)))"

text \<open>
  \<^verbatim>\<open>initialize\<close>, called at the instant \<open>t\<close>: the timer made by \<^verbatim>\<open>time.NewTimer(0)\<close>
  holds a value from \<open>t\<close> on. The warnings it logs (a time zone that does not load, an
  interface that cannot be read) are not part of the result.
\<close>

definition initialize ::
  "syslogHost \<Rightarrow> syslogEnv \<Rightarrow> instant \<Rightarrow> syslogBackend \<Rightarrow> string option \<times> syslogBackend" where
  "initialize h env t b =
     (let b1 = (if messageExtraStart env \<noteq> []
                then b\<lparr>syslogExtraStart := osExpandEnv h (messageExtraStart env) @ '' ''\<rparr>
                else b);
          b2 = (if messageExtraEnd env \<noteq> []
                then b1\<lparr>syslogExtraEnd := '' '' @ osExpandEnv h (messageExtraEnd env)\<rparr>
                else b1)
      in if forwardAddresses env = [] then (None, b2)
         else
           let tz = (if syslogTimezone env \<noteq> [] then
                       (case timeLoadLocation h (syslogTimezone env) of
                          Inr loc \<Rightarrow> loc
                        | Inl err \<Rightarrow> timeLocal h)
                     else timeLocal h);
               m = initializeMtu (mtuNetworkInterface env) (netInterfaceByName h)
           in initializeForwarders h m (bufferSize env) (forwardAddresses env)
                (b2\<lparr>syslogLocation := tz, nextNotify := t\<rparr>))"

subsection \<open>Well-formed stores and observations of the trace\<close>

text \<open>A slice is well formed when its array has been allocated and holds its whole
  capacity. The pool is well formed when its slices are.\<close>

definition wfSlice :: "world \<Rightarrow> slice \<Rightarrow> bool" where
  "wfSlice w s =
     (base s < nextAddr w \<and> off s + cap s \<le> length (mem w (base s)) \<and> len s \<le> cap s)"

definition wfPool :: "world \<Rightarrow> bool" where
  "wfPool w = list_all (wfSlice w) (pool w)"

text \<open>An array is owned when it is allocated and no pooled slice points into it.\<close>

definition owned :: "world \<Rightarrow> addr \<Rightarrow> bool" where
  "owned w a = (a < nextAddr w \<and> a \<notin> set (map base (pool w)))"

text \<open>A message as \<^verbatim>\<open>sendMessage\<close> builds it: the two indices lie inside the buffer,
  in order.\<close>

definition wfMessage :: "world \<Rightarrow> bufferWithIdx \<Rightarrow> bool" where
  "wfMessage w m =
     (wfSlice w (buffer m) \<and> 0 \<le> headerIdx m \<and> headerIdx m \<le> contentIdx m
      \<and> contentIdx m \<le> int (len (buffer m)))"

definition headerOf :: "world \<Rightarrow> bufferWithIdx \<Rightarrow> bytes" where
  "headerOf w m = take (nat (headerIdx m)) (bytesOf w (buffer m))"

definition contentOf :: "world \<Rightarrow> bufferWithIdx \<Rightarrow> bytes" where
  "contentOf w m =
     take (nat (contentIdx m) - nat (headerIdx m)) (drop (nat (headerIdx m)) (bytesOf w (buffer m)))"

definition trailerOf :: "world \<Rightarrow> bufferWithIdx \<Rightarrow> bytes" where
  "trailerOf w m = drop (nat (contentIdx m)) (bytesOf w (buffer m))"

text \<open>A peer that accepts every deadline and every write in full.\<close>

definition healthy :: "conn \<Rightarrow> bool" where
  "healthy c =
     ((\<forall>k. deadlineReply c k = None) \<and> (\<forall>k b. writeReply c k b = (int (length b), None)))"

text \<open>The datagrams handed to \<^verbatim>\<open>conn.Write\<close>, in order.\<close>

fun writes :: "event list \<Rightarrow> bytes list" where
  "writes [] = []"
| "writes (Write b # es) = b # writes es"
| "writes (e # es) = writes es"

text \<open>The slices handed back to the pool, in order.\<close>

fun puts :: "event list \<Rightarrow> slice list" where
  "puts [] = []"
| "puts (PoolPut s # es) = s # puts es"
| "puts (e # es) = puts es"

text \<open>The lines handed to \<^verbatim>\<open>bslog.Errorf\<close>, in order.\<close>

fun errors :: "event list \<Rightarrow> string list" where
  "errors [] = []"
| "errors (Errorf e # es) = e # errors es"
| "errors (e # es) = errors es"

text \<open>What a call of \<^verbatim>\<open>sendMessage\<close> did to a channel: a channel that could take a
  message got one at the end of its queue and is otherwise as before, and a channel that
  could not is unchanged.\<close>

definition accepted :: "chan \<Rightarrow> chan \<Rightarrow> bufferWithIdx list" where
  "accepted ch ch' = drop (length (queue ch)) (queue ch')"

text \<open>The messages that a call put on the channels, each with the index of its
  channel.\<close>

fun handedOut :: "nat \<Rightarrow> chan list \<Rightarrow> chan list \<Rightarrow> (nat \<times> bufferWithIdx) list" where
  "handedOut i (ch # chs) (ch' # chs') = map (Pair i) (accepted ch ch') @ handedOut (Suc i) chs chs'"
| "handedOut i chs chs' = []"

text \<open>The content region of a fragment whose header has \<open>h\<close> bytes and whose trailer has
  \<open>t\<close> bytes.\<close>

definition contentRegion :: "nat \<Rightarrow> nat \<Rightarrow> bytes \<Rightarrow> bytes" where
  "contentRegion h t d = take (length d - h - t) (drop h d)"

text \<open>
  The splitting as the specification words it: the content is cut into chunks of
  \<open>messageLimit - headerLen - trailerLen\<close> bytes, the last one holding what is left, and
  every chunk is sent between the header and the trailer. A message that fits, or a
  forwarder without a limit, sends the message as it is.
\<close>

function specChunks :: "nat \<Rightarrow> bytes \<Rightarrow> bytes list" where
  "specChunks n xs = (if n = 0 \<or> xs = [] then [] else take n xs # specChunks n (drop n xs))"
  by pat_completeness auto
termination
  by (relation "measure (\<lambda>(n, xs). length xs)") auto

declare specChunks.simps [simp del]

definition specDatagrams :: "int \<Rightarrow> bytes \<Rightarrow> bytes \<Rightarrow> bytes \<Rightarrow> bytes list" where
  "specDatagrams limit h c t =
     (if limit \<le> 0 \<or> int (length (h @ c @ t)) \<le> limit then [h @ c @ t]
      else map (\<lambda>chunk. h @ chunk @ t) (specChunks (nat (limit - int (length h) - int (length t))) c))"

text \<open>The dial error as the specification gives it, and the addresses that parse and
  can be dialled on a host.\<close>

definition specDialError :: "string \<Rightarrow> string \<Rightarrow> string" where
  "specDialError forwardUrl cause =
     ''[log forwarder] unable to connect to '' @ [CHR 0x22] @ forwardUrl @ [CHR 0x22]
       @ '': '' @ cause"

definition reachable :: "syslogHost \<Rightarrow> string \<Rightarrow> bool" where
  "reachable h a =
     (case urlParse h a of
        Inl err \<Rightarrow> False
      | Inr u \<Rightarrow> (case netDialTimeout h (scheme u) (host u) of Inl err \<Rightarrow> False | Inr c \<Rightarrow> True))"

subsection \<open>Runs of the listener\<close>

text \<open>
  A run of the listener: a sequence of calls of \<^verbatim>\<open>sendMessage\<close>, each at its own
  instant, and before each of them whatever the workers did to the channels in the
  meantime. \<open>sendMany\<close> is the state the run ends in and \<open>noticeTimes\<close> the instants of
  the calls that logged a drop.
\<close>

type_synonym send = "instant \<times> (chan list \<Rightarrow> chan list) \<times> rawLogParts \<times> string \<times> string"

fun sendMany :: "syslogBackend \<Rightarrow> world \<Rightarrow> send list \<Rightarrow> syslogBackend \<times> world" where
  "sendMany b w [] = (b, w)"
| "sendMany b w ((t, workers, parts, appName, processName) # rest) =
     (case sendMessage (b\<lparr>msgChans := workers (msgChans b)\<rparr>) parts appName processName []
             (w\<lparr>now := t\<rparr>) of
        (b', w') \<Rightarrow> sendMany b' w' rest)"

fun noticeTimes :: "syslogBackend \<Rightarrow> world \<Rightarrow> send list \<Rightarrow> instant list" where
  "noticeTimes b w [] = []"
| "noticeTimes b w ((t, workers, parts, appName, processName) # rest) =
     (case sendMessage (b\<lparr>msgChans := workers (msgChans b)\<rparr>) parts appName processName []
             (w\<lparr>now := t\<rparr>) of
        (b', w') \<Rightarrow>
          (if length (errors (trace w)) < length (errors (trace w')) then [t] else [])
          @ noticeTimes b' w' rest)"

text \<open>The calls that log a drop when no sink ever takes a message: those made at or after
  the instant the timer is set to.\<close>

fun stuckNotices :: "instant \<Rightarrow> instant list \<Rightarrow> instant list" where
  "stuckNotices timer [] = []"
| "stuckNotices timer (t # rest) =
     (if timer \<le> t then t # stuckNotices (t + minute) rest else stuckNotices timer rest)"

text \<open>Instants that start no earlier than \<open>lo\<close> and lie at least \<open>d\<close> apart.\<close>

fun spaced :: "duration \<Rightarrow> instant \<Rightarrow> instant list \<Rightarrow> bool" where
  "spaced d lo [] = True"
| "spaced d lo (t # rest) = (lo \<le> t \<and> spaced d (t + d) rest)"

subsection \<open>The lenient parser\<close>

text \<open>Modelled from the spec: the lenient parser (\<^verbatim>\<open>LenientParser\<close>, its \<^verbatim>\<open>Parse\<close> and
  \<^verbatim>\<open>Dump\<close>) is not among the sources, only its test is. The record has the keys the test
  reads; an empty string is a key that is absent. The time stamp is kept as the text of
  the line.\<close>

record logParts =
  lpPriority :: nat
  facility :: nat
  severity :: nat
  timestamp :: string
  hostname :: string
  tag :: string
  proc_id :: string
  lpContent :: string
  app_name :: string
  msg_id :: string
  structured_data :: string
  version :: string
  rawmsg :: string
  containerId :: string

text \<open>Modelled from the spec: the three shapes of a line, in the order in which they are
  tried: BSD with an ISO-8601 time stamp, classic BSD, and RFC 5424.\<close>

datatype shape = BsdIso | Bsd | Rfc5424

text \<open>Modelled from the spec: the ASCII digits and letters of a time stamp.\<close>

definition isDigit :: "char \<Rightarrow> bool" where
  "isDigit c = (48 \<le> (of_char c :: nat) \<and> (of_char c :: nat) \<le> 57)"

definition isLetter :: "char \<Rightarrow> bool" where
  "isLetter c = ((65 \<le> (of_char c :: nat) \<and> (of_char c :: nat) \<le> 90)
     \<or> (97 \<le> (of_char c :: nat) \<and> (of_char c :: nat) \<le> 122))"

text \<open>Modelled from the spec: a text matches a layout when it has the layout's length and
  every character fits: \<^verbatim>\<open>9\<close> stands for a digit, \<^verbatim>\<open>_\<close> for a digit or a space,
  \<^verbatim>\<open>a\<close> for a letter, anything else for itself. The two layouts are
  \<^verbatim>\<open>YYYY-MM-DDThh:mm:ssZ\<close> and \<^verbatim>\<open>Mon  d hh:mm:ss\<close>.\<close>

fun matchesLayout :: "string \<Rightarrow> string \<Rightarrow> bool" where
  "matchesLayout [] [] = True"
| "matchesLayout (p # ps) (c # cs) =
     ((if p = CHR ''9'' then isDigit c
       else if p = CHR ''_'' then (isDigit c \<or> c = CHR '' '')
       else if p = CHR ''a'' then isLetter c
       else p = c) \<and> matchesLayout ps cs)"
| "matchesLayout [] (c # cs) = False"
| "matchesLayout (p # ps) [] = False"

definition isoLayout :: string where
  "isoLayout = ''9999-99-99T99:99:99Z''"

definition stampLayout :: string where
  "stampLayout = ''aaa _9 99:99:99''"

text \<open>Modelled from the spec: the header \<^verbatim>\<open><PRI>\<close> of a line, one to three decimal
  digits between angle brackets; the result is the number and the rest of the line.\<close>

definition decimal :: "string \<Rightarrow> nat" where
  "decimal ds = foldl (\<lambda>n c. 10 * n + (of_char c - 48)) 0 ds"

definition parsePriority :: "string \<Rightarrow> (nat \<times> string) option" where
  "parsePriority line =
     (case line of
        [] \<Rightarrow> None
      | c # rest \<Rightarrow>
          if c = CHR ''<'' then
            (let ds = takeWhile isDigit rest; after = dropWhile isDigit rest in
             if ds \<noteq> [] \<and> length ds \<le> 3 \<and> take 1 after = ''>''
             then Some (decimal ds, drop 1 after) else None)
          else None)"

text \<open>Modelled from the spec: the text up to the next space, and what follows the
  space.\<close>

definition nextField :: "string \<Rightarrow> string \<times> string" where
  "nextField s = (takeWhile (\<lambda>c. c \<noteq> CHR '' '') s, drop 1 (dropWhile (\<lambda>c. c \<noteq> CHR '' '') s))"

text \<open>Modelled from the spec: the shape of what follows the header, the first of the
  three that fits.\<close>

definition shapeOf :: "string \<Rightarrow> shape option" where
  "shapeOf body =
     (if matchesLayout isoLayout (take 20 body) \<and> take 1 (drop 20 body) = '' '' then Some BsdIso
      else if matchesLayout stampLayout (take 15 body) \<and> take 1 (drop 15 body) = '' '' then Some Bsd
      else if take 2 body = ''1 '' then Some Rfc5424
      else None)"

text \<open>Modelled from the spec: the record with every field empty, which is also what a
  line of no shape gives; the decomposition of the priority; and the tag, whose remainder
  after \<^verbatim>\<open>docker/\<close> is the short container id.\<close>

definition emptyParts :: "string \<Rightarrow> logParts" where
  "emptyParts line = \<lparr>lpPriority = 0, facility = 0, severity = 0, timestamp = [], hostname = [],
     tag = [], proc_id = [], lpContent = [], app_name = [], msg_id = [], structured_data = [],
     version = [], rawmsg = line, containerId = []\<rparr>"

definition withPriority :: "nat \<Rightarrow> logParts \<Rightarrow> logParts" where
  "withPriority p r = r\<lparr>lpPriority := p, facility := p div 8, severity := p mod 8\<rparr>"

definition withTag :: "string \<Rightarrow> logParts \<Rightarrow> logParts" where
  "withTag t r = r\<lparr>tag := t, containerId := (if take 7 t = ''docker/'' then drop 7 t else [])\<rparr>"

text \<open>Modelled from the spec: \<^verbatim>\<open>host tag[pid]: content\<close> after the time stamp. The
  test of the parser expects no process id from a line of the classic shape, so the
  process id is kept for the ISO shape only.\<close>

definition isTagChar :: "char \<Rightarrow> bool" where
  "isTagChar c = (c \<noteq> CHR ''['' \<and> c \<noteq> CHR '':'' \<and> c \<noteq> CHR '' '')"

definition parseBsd :: "bool \<Rightarrow> string \<Rightarrow> string \<Rightarrow> logParts \<Rightarrow> logParts" where
  "parseBsd keepPid stamp rest r =
     (let (h, s) = nextField rest;
          t = takeWhile isTagChar s;
          s1 = dropWhile isTagChar s;
          pid = (if take 1 s1 = ''['' then takeWhile (\<lambda>c. c \<noteq> CHR '']'') (drop 1 s1) else []);
          s2 = (if take 1 s1 = ''['' then drop 1 (dropWhile (\<lambda>c. c \<noteq> CHR '']'') (drop 1 s1)) else s1);
          s3 = (if take 1 s2 = '':'' then drop 1 s2 else s2);
          s4 = (if take 1 s3 = '' '' then drop 1 s3 else s3)
      in withTag t (r\<lparr>timestamp := stamp, hostname := h,
           proc_id := (if keepPid then pid else []), lpContent := s4\<rparr>))"

text \<open>Modelled from the spec: \<^verbatim>\<open>1 timestamp host app pid msgid sd content\<close>, fields
  separated by single spaces; the application is also the tag.\<close>

definition parseRfc5424 :: "string \<Rightarrow> logParts \<Rightarrow> logParts" where
  "parseRfc5424 body r =
     (let (v, s0) = nextField body;
          (stamp, s1) = nextField s0;
          (h, s2) = nextField s1;
          (app, s3) = nextField s2;
          (pid, s4) = nextField s3;
          (mid, s5) = nextField s4;
          (sd, s6) = nextField s5
      in withTag app (r\<lparr>timestamp := stamp, hostname := h, proc_id := pid, lpContent := s6,
           app_name := app, msg_id := mid, structured_data := sd, version := v\<rparr>))"

text \<open>Modelled from the spec: \<^verbatim>\<open>Parse\<close> returns an error (never one) and the
  record.\<close>

definition Parse :: "string \<Rightarrow> string option \<times> logParts" where
  "Parse line =
     (case parsePriority line of
        None \<Rightarrow> (None, emptyParts line)
      | Some (p, body) \<Rightarrow>
          (case shapeOf body of
             None \<Rightarrow> (None, emptyParts line)
           | Some BsdIso \<Rightarrow>
               (None, withPriority p (parseBsd True (take 20 body) (drop 21 body) (emptyParts line)))
           | Some Bsd \<Rightarrow>
               (None, withPriority p (parseBsd False (take 15 body) (drop 16 body) (emptyParts line)))
           | Some Rfc5424 \<Rightarrow> (None, withPriority p (parseRfc5424 body (emptyParts line)))))"


text \<open>Modelled from the spec: a priority written in decimal, as a sender puts it between
  the angle brackets.\<close>

function decimalDigits :: "nat \<Rightarrow> string" where
  "decimalDigits n =
     (if n < 10 then [char_of (48 + n)]
      else decimalDigits (n div 10) @ [char_of (48 + n mod 10)])"
  by pat_completeness auto
termination by (relation "measure id") auto

declare decimalDigits.simps [simp del]

subsection \<open>The calendar and the layout of the time stamp\<close>

















subsection \<open>The websocket sink\<close>





















subsection \<open>The heartbeat of the websocket session\<close>

text \<open>Modelled from the spec: the heartbeat of the websocket session is not among the
  sources, only its tests are. What the heartbeat sees is a sequence of events: the
  interval has elapsed (\<open>Tick\<close>), or a pong frame with some payload has arrived.\<close>

type_synonym payload = string

datatype wsEvent = Tick | Pong payload

text \<open>Modelled from the spec: the state of the heartbeat is the payload of the ping that
  has not been answered yet, the pings sent so far, the error lines logged and the number
  of times the session was reconnected.\<close>

record heartbeat =
  awaiting :: "payload option"
  pings :: "payload list"
  errorLines :: "string list"
  reconnects :: nat

text \<open>Modelled from the spec: the diagnostic line, with the interval as it is printed.\<close>

definition noPong :: "string \<Rightarrow> string" where
  "noPong interval = ''no pong response in '' @ interval"

text \<open>Modelled from the spec: when the interval elapses and the last ping has been
  answered, the next ping goes out with a payload of its own (\<open>fresh\<close> gives the payload of
  the n-th ping); when it has not been answered, the line is logged once and the session
  is reconnected. A pong answers the ping when it carries the same payload, any other
  pong changes nothing.\<close>

fun beat :: "string \<Rightarrow> (nat \<Rightarrow> payload) \<Rightarrow> heartbeat \<Rightarrow> wsEvent \<Rightarrow> heartbeat" where
  "beat interval fresh s Tick =
     (case awaiting s of
        Some p \<Rightarrow> s\<lparr>awaiting := None, errorLines := errorLines s @ [noPong interval],
                     reconnects := Suc (reconnects s)\<rparr>
      | None \<Rightarrow> s\<lparr>awaiting := Some (fresh (length (pings s))),
                   pings := pings s @ [fresh (length (pings s))]\<rparr>)"
| "beat interval fresh s (Pong q) = (if awaiting s = Some q then s\<lparr>awaiting := None\<rparr> else s)"

text \<open>Modelled from the spec: a run of the heartbeat over a sequence of events, and the
  state of a session that has just been connected.\<close>

definition heartbeats :: "string \<Rightarrow> (nat \<Rightarrow> payload) \<Rightarrow> wsEvent list \<Rightarrow> heartbeat \<Rightarrow> heartbeat" where
  "heartbeats interval fresh es s = foldl (beat interval fresh) s es"

definition connected :: heartbeat where
  "connected = \<lparr>awaiting = None, pings = [], errorLines = [], reconnects = 0\<rparr>"

text \<open>Modelled from the spec: the sequences in which every ping receives its pong in
  time: between a tick, which sends the n-th ping, and the next tick there is a pong with
  the payload of that ping. The ping of the last tick may still be waiting.\<close>

definition isTick :: "wsEvent \<Rightarrow> bool" where
  "isTick e = (e = Tick)"

function answered :: "(nat \<Rightarrow> payload) \<Rightarrow> nat \<Rightarrow> wsEvent list \<Rightarrow> bool" where
  "answered fresh n [] = True"
| "answered fresh n (Pong q # es) = answered fresh n es"
| "answered fresh n (Tick # es) =
     ((list_ex isTick es \<longrightarrow> Pong (fresh n) \<in> set (takeWhile (\<lambda>e. \<not> isTick e) es))
      \<and> answered fresh (Suc n) (dropWhile (\<lambda>e. \<not> isTick e) es))"
  by pat_completeness auto
termination
  by (relation "measure (\<lambda>(fresh, n, es). length es)")
    (auto simp: length_dropWhile_le less_Suc_eq_le)

subsection \<open>Concrete inputs\<close>

text \<open>A peer that takes everything, and one whose every write comes one byte short.\<close>

definition peerOk :: conn where
  "peerOk = \<lparr>remoteAddr = ''10.0.0.1:514'', deadlineReply = (\<lambda>_. None),
     writeReply = (\<lambda>_ b. (int (length b), None)), flushPeriod = None\<rparr>"

definition peerShort :: conn where
  "peerShort = \<lparr>remoteAddr = ''10.0.0.1:514'', deadlineReply = (\<lambda>_. None),
     writeReply = (\<lambda>_ b. (int (length b) - 1, None)), flushPeriod = None\<rparr>"

text \<open>A peer that takes ten bytes of every write and then reports a broken pipe.\<close>

definition peerBroken :: conn where
  "peerBroken = \<lparr>remoteAddr = ''10.0.0.1:514'', deadlineReply = (\<lambda>_. None),
     writeReply = (\<lambda>_ b. (10, Some ''write: broken pipe'')), flushPeriod = None\<rparr>"

text \<open>The line of the forwarding test, in a pooled buffer of 200 bytes at address 0: the
  header ends at byte 53, the content \<^verbatim>\<open>mymsg\<close> at byte 58, and the newline is the
  trailer.\<close>

definition exLine :: bytes where
  "exLine = ''<30>Jun  5 12:13:47 0123456789ab coolappname[procx]: mymsg'' @ [CHR 0x0A]"

definition exWorld :: world where
  "exWorld = \<lparr>mem = (\<lambda>_. [])(0 := exLine @ replicate 141 zeroByte), nextAddr = 1,
     growslice = (\<lambda>c n. 2 * c), pool = [], now = 0, trace = [],
     isPrint = (\<lambda>r. False)\<rparr>"

definition exMessage :: bufferWithIdx where
  "exMessage = \<lparr>buffer = \<lparr>base = 0, off = 0, len = 59, cap = 200\<rparr>,
     headerIdx = 53, contentIdx = 58\<rparr>"

text \<open>A UDP forwarder after \<^verbatim>\<open>connect\<close>, on an interface of the given MTU.\<close>

definition exForwarder :: "int \<Rightarrow> syslogForwarder" where
  "exForwarder m = \<lparr>furl = \<lparr>scheme = ''udp'', host = ''10.0.0.1:514'',
       urlString = ''udp://10.0.0.1:514''\<rparr>, mtu = m, messageLimit = m - udpHeaderSz\<rparr>"

text \<open>A dial that succeeds with the healthy peer, and a host whose interfaces all report
  the given MTU.\<close>

definition dialOk :: "string \<Rightarrow> string \<Rightarrow> string + conn" where
  "dialOk network address = Inr peerOk"

definition ifaceWithMtu :: "int \<Rightarrow> string \<Rightarrow> string + int" where
  "ifaceWithMtu v name = Inr v"

text \<open>The record of the forwarding tests: 2015-06-05T16:13:47Z, priority 30, a container
  id of 64 characters, and the two time zones of the tests.\<close>

definition exParts :: rawLogParts where
  "exParts = \<lparr>ts = 1433520827 * second, priority = ''30'', content = ''mymsg'',
     container = ''0123456789abcdef0123456789abcdef0123456789abcdef0123456789abcdef''\<rparr>"

definition grenada :: location where
  "grenada = fixedZone (- 4 * 3600)"

definition fortaleza :: location where
  "fortaleza = fixedZone (- 3 * 3600)"

definition exChan :: "nat \<Rightarrow> chan" where
  "exChan n = \<lparr>capacity = n, queue = [], receiverWaiting = False\<rparr>"

definition exBackend :: "location \<Rightarrow> chan list \<Rightarrow> syslogBackend" where
  "exBackend loc chs = \<lparr>syslogLocation = loc, syslogExtraStart = [], syslogExtraEnd = [],
     msgChans = chs, nextNotify = 0\<rparr>"

definition emptyWorld :: world where
  "emptyWorld = \<lparr>mem = (\<lambda>_. []), nextAddr = 0, growslice = (\<lambda>c n. 2 * c), pool = [],
     now = 0, trace = [], isPrint = (\<lambda>r. False)\<rparr>"

text \<open>Two runs against one sink that never takes a message: two records a little more
  than a minute apart, and the same with two more records in between.\<close>

definition idle :: "chan list \<Rightarrow> chan list" where
  "idle chs = chs"

definition exSend :: "instant \<Rightarrow> send" where
  "exSend t = (t, idle, exParts, ''coolappname'', ''procx'')"

definition runTwo :: "send list" where
  "runTwo = map exSend [0, 61 * second]"

definition runFour :: "send list" where
  "runFour = map exSend [0, 1 * second, 2 * second, 61 * second]"

text \<open>The start of the connection-error test: a host on which only \<^verbatim>\<open>udp\<close> and
  \<^verbatim>\<open>tcp\<close> are networks, and two forward addresses of which the second names the
  network \<^verbatim>\<open>xudp\<close>. The host parses three addresses, as \<^verbatim>\<open>url.Parse\<close> does: the
  scheme of a URL is kept in lower case, so the address written \<^verbatim>\<open>XUDP://127.0.0.1:1234\<close>
  gives the same URL as the one written in lower case, and that URL prints in lower
  case.\<close>

definition exDial :: "string \<Rightarrow> string \<Rightarrow> string + conn" where
  "exDial network address =
     (if network = ''udp'' \<or> network = ''tcp'' then Inr peerOk
      else Inl (''dial '' @ network @ '': unknown network '' @ network))"

definition exUrlParse :: "string \<Rightarrow> string + url" where
  "exUrlParse a =
     (if a = ''udp://10.0.0.1:514'' then Inr (furl (exForwarder 1500))
      else if a = ''xudp://127.0.0.1:1234'' \<or> a = ''XUDP://127.0.0.1:1234''
      then Inr \<lparr>scheme = ''xudp'', host = ''127.0.0.1:1234'',
                urlString = ''xudp://127.0.0.1:1234''\<rparr>
      else Inl ''missing protocol scheme'')"

definition exHost :: syslogHost where
  "exHost = \<lparr>osExpandEnv = (\<lambda>s. s), timeLocal = fixedZone 0,
     timeLoadLocation = (\<lambda>name. if name = ''America/Grenada'' then Inr grenada
                                else if name = ''America/Fortaleza'' then Inr fortaleza
                                else Inl ''unknown time zone''),
     netInterfaceByName = ifaceWithMtu 1500, urlParse = exUrlParse, netDialTimeout = exDial,
     unicodeIsPrint = (\<lambda>r. False)\<rparr>"

definition exEnv :: syslogEnv where
  "exEnv = \<lparr>messageExtraStart = [], messageExtraEnd = [], bufferSize = 1000000,
     forwardAddresses = [''udp://10.0.0.1:514'', ''xudp://127.0.0.1:1234''],
     syslogTimezone = [], mtuNetworkInterface = ''eth0''\<rparr>"




text \<open>The same start with the one forward address \<^verbatim>\<open>XUDP://127.0.0.1:1234\<close>.\<close>

definition exEnvUpper :: syslogEnv where
  "exEnvUpper = exEnv\<lparr>forwardAddresses := [''XUDP://127.0.0.1:1234'']\<rparr>"


text \<open>Payloads for the pings of an example: the n-th ping carries n + 1 letters.\<close>

definition examplePayload :: "nat \<Rightarrow> payload" where
  "examplePayload n = replicate (Suc n) (CHR ''p'')"

section \<open>Properties\<close>

subsection \<open>Slices, appends and the pool\<close>

lemma length_bytesOf: "wfSlice w s \<Longrightarrow> length (bytesOf w s) = len s"
  by (auto simp: wfSlice_def bytesOf_def)

lemma overwrite_length: "pos + length d \<le> length arr \<Longrightarrow> length (overwrite arr pos d) = length arr"
  by (auto simp: overwrite_def)

lemma take_drop_overwrite:
  "take (l + length d) (drop o' (overwrite arr (o' + l) d)) = take l (drop o' arr) @ d"
  if "o' + l + length d \<le> length arr"
proof -
  let ?A = "drop o' (take (o' + l) arr)"
  have lenA: "length ?A = l" using that by simp
  have "drop o' (overwrite arr (o' + l) d) = ?A @ d @ drop (o' + l + length d) arr"
    using that by (simp add: overwrite_def)
  then have "take (l + length d) (drop o' (overwrite arr (o' + l) d)) = ?A @ d"
    using lenA by simp
  moreover have "?A = take l (drop o' arr)" by (simp add: drop_take)
  ultimately show ?thesis by simp
qed

lemma goAppend_bytes:
  assumes "wfSlice w s" "goAppend s d w = (s', w')"
  shows "bytesOf w' s' = bytesOf w s @ d"
  using assms
  by (auto simp: goAppend_def Let_def bytesOf_def wfSlice_def take_drop_overwrite split: if_splits)

lemma goAppend_wf:
  assumes "wfSlice w s" "goAppend s d w = (s', w')"
  shows "wfSlice w' s'"
  using assms
  by (auto simp: goAppend_def Let_def bytesOf_def wfSlice_def overwrite_length split: if_splits)

lemma goAppend_keeps_wf:
  assumes "wfSlice w s" "goAppend s d w = (s', w')" "wfSlice w t"
  shows "wfSlice w' t"
  using assms
  by (auto simp: goAppend_def Let_def wfSlice_def overwrite_length split: if_splits)

lemma goAppend_same:
  assumes "goAppend s d w = (s', w')"
  shows "pool w' = pool w" "trace w' = trace w" "now w' = now w" "growslice w' = growslice w"
    "nextAddr w \<le> nextAddr w'"
  using assms by (auto simp: goAppend_def Let_def split: if_splits)

lemma goAppend_frame:
  assumes "goAppend s d w = (s', w')" "a \<noteq> base s" "a < nextAddr w"
  shows "mem w' a = mem w a" "base s' \<noteq> a"
  using assms by (auto simp: goAppend_def Let_def split: if_splits)

lemma goAppend_inplace:
  assumes "len s + length d \<le> cap s"
  shows "goAppend s d w =
    (s\<lparr>len := len s + length d\<rparr>,
     w\<lparr>mem := (mem w)(base s := overwrite (mem w (base s)) (off s + len s) d)\<rparr>)"
  using assms by (simp add: goAppend_def Let_def)

lemma bytesOf_cong: "mem w' (base t) = mem w (base t) \<Longrightarrow> bytesOf w' t = bytesOf w t"
  by (simp add: bytesOf_def)

lemma wfPool_mono:
  assumes "wfPool w" "pool w' = pool w" "\<And>t. wfSlice w t \<Longrightarrow> wfSlice w' t"
  shows "wfPool w'"
  using assms by (auto simp: wfPool_def list_all_iff)

lemma owned_mono:
  assumes "owned w a" "pool w' = pool w" "nextAddr w \<le> nextAddr w'"
  shows "owned w' a"
  using assms by (auto simp: owned_def)

lemma poolGet_props:
  assumes "poolGet w = (got, w1)" "wfPool w"
  shows "wfSlice w1 got" "wfPool w1" "trace w1 = trace w @ [PoolGet got]" "now w1 = now w"
    "growslice w1 = growslice w" "nextAddr w \<le> nextAddr w1"
    "\<And>t. wfSlice w t \<Longrightarrow> wfSlice w1 t"
    "\<And>a. a < nextAddr w \<Longrightarrow> mem w1 a = mem w a"
    "\<And>a. owned w a \<Longrightarrow> owned w1 a \<and> base got \<noteq> a"
    "base got \<notin> set (map base (pool w1)) \<or> \<not> distinct (map base (pool w))"
  using assms
  by (auto simp: poolGet_def poolNew_def wfPool_def wfSlice_def owned_def list_all_iff Let_def
      split: list.splits)

lemma poolPut_props:
  shows "trace (poolPut s w) = trace w @ [PoolPut s]" "mem (poolPut s w) = mem w"
    "nextAddr (poolPut s w) = nextAddr w" "now (poolPut s w) = now w"
    "growslice (poolPut s w) = growslice w" "pool (poolPut s w) = s # pool w"
    "wfSlice (poolPut s w) t = wfSlice w t"
    "wfPool (poolPut s w) = (wfSlice w s \<and> wfPool w)"
    "owned (poolPut s w) a = (owned w a \<and> base s \<noteq> a)"
    "bytesOf (poolPut s w) t = bytesOf w t"
  by (auto simp: poolPut_def wfPool_def wfSlice_def owned_def bytesOf_def list_all_iff)

lemma writePart_world:
  assumes "writePart f c buf w = (err, w')"
  shows "\<exists>tr. w' = w\<lparr>trace := trace w @ tr\<rparr> \<and>
     (tr = [SetWriteDeadline (now w + forwardConnWriteTimeout)] \<and> err \<noteq> None
      \<or> tr = [SetWriteDeadline (now w + forwardConnWriteTimeout), Write (bytesOf w buf)])"
  using assms
  by (auto simp: writePart_def connSetWriteDeadline_def connWrite_def Let_def bytesOf_def
      split: option.splits prod.splits if_splits)

lemma writePart_healthy:
  assumes "healthy c" "wfSlice w buf"
  shows "writePart f c buf w =
    (None, w\<lparr>trace := trace w @ [SetWriteDeadline (now w + forwardConnWriteTimeout), Write (bytesOf w buf)]\<rparr>)"
  using assms
  by (auto simp: writePart_def connSetWriteDeadline_def connWrite_def Let_def healthy_def
      wfSlice_def bytesOf_def split: option.splits prod.splits)

lemma trace_upd_simps [simp]:
  "wfSlice (w\<lparr>trace := tr\<rparr>) s = wfSlice w s"
  "wfPool (w\<lparr>trace := tr\<rparr>) = wfPool w"
  "owned (w\<lparr>trace := tr\<rparr>) a = owned w a"
  "bytesOf (w\<lparr>trace := tr\<rparr>) s = bytesOf w s"
  by (auto simp: wfSlice_def wfPool_def owned_def bytesOf_def list_all_iff)

lemma writes_append [simp]: "writes (xs @ ys) = writes xs @ writes ys"
  by (induction xs rule: writes.induct) auto

lemma puts_append [simp]: "puts (xs @ ys) = puts xs @ puts ys"
  by (induction xs rule: puts.induct) auto

lemma sliceTo_props:
  assumes "wfSlice w s" "0 \<le> n" "n \<le> int (len s)"
  shows "\<exists>ch. sliceTo s n = Inr ch \<and> base ch = base s \<and> wfSlice w ch
     \<and> bytesOf w ch = take (nat n) (bytesOf w s) \<and> len ch = nat n \<and> off ch = off s"
  using assms
  by (auto simp: sliceTo_def sliceRange_def wfSlice_def bytesOf_def min_def)

lemma sliceFrom_props:
  assumes "wfSlice w s" "0 \<le> n" "n \<le> int (len s)"
  shows "\<exists>r. sliceFrom s n = Inr r \<and> base r = base s \<and> wfSlice w r
     \<and> bytesOf w r = drop (nat n) (bytesOf w s) \<and> len r = len s - nat n
     \<and> off r = off s + nat n"
  using assms
  by (auto simp: sliceFrom_def sliceRange_def wfSlice_def bytesOf_def drop_take add.commute
      nat_diff_distrib)

lemma sliceRange_props:
  assumes "wfSlice w s" "0 \<le> i" "i \<le> j" "j \<le> int (len s)"
  shows "\<exists>r. sliceRange s i j = Inr r \<and> base r = base s \<and> wfSlice w r
     \<and> bytesOf w r = take (nat j - nat i) (drop (nat i) (bytesOf w s)) \<and> len r = nat j - nat i
     \<and> off r = off s + nat i"
proof -
  have "nat j \<le> len s" "nat i \<le> nat j" "nat (j - i) = nat j - nat i"
    using assms by (auto simp: nat_diff_distrib)
  then show ?thesis
    using assms
    by (auto simp: sliceRange_def wfSlice_def bytesOf_def drop_take add.commute min_def
        intro: diff_le_mono order_trans)
qed

lemma wfSlice_cong:
  "wfSlice w t \<Longrightarrow> mem w' (base t) = mem w (base t) \<Longrightarrow> nextAddr w \<le> nextAddr w' \<Longrightarrow> wfSlice w' t"
  by (auto simp: wfSlice_def)

lemma fragment_build:
  assumes inv: "wfPool w" "owned w a"
    and sl: "base hB = a" "base tB = a" "base ch = a"
    and g: "poolGet w = (got, w1)"
    and a1: "goAppend (got\<lparr>len := 0\<rparr>) (bytesOf w1 hB) w1 = (b1, w2)"
    and a2: "goAppend b1 (bytesOf w2 ch) w2 = (b2, w3)"
    and a3: "goAppend b2 (bytesOf w3 tB) w3 = (b3, w4)"
  shows "bytesOf w4 b3 = bytesOf w hB @ bytesOf w ch @ bytesOf w tB"
    and "wfSlice w4 b3" and "base b3 \<noteq> a" and "mem w4 a = mem w a"
    and "wfPool w4" and "owned w4 a" and "nextAddr w \<le> nextAddr w4" and "now w4 = now w"
    and "trace w4 = trace w @ [PoolGet got]" and "growslice w4 = growslice w"
proof -
  have a_lt: "a < nextAddr w" using inv by (simp add: owned_def)
  note G = poolGet_props [OF g inv(1)]
  have m1: "mem w1 a = mem w a" using G(8) a_lt by simp
  have o1: "owned w1 a" "base got \<noteq> a" using G(9) inv(2) by auto
  have wf0: "wfSlice w1 (got\<lparr>len := 0\<rparr>)" using G(1) by (simp add: wfSlice_def)
  have ne0: "a \<noteq> base (got\<lparr>len := 0\<rparr>)" using o1 by simp
  have a_lt1: "a < nextAddr w1" using a_lt G(6) by simp
  note S1 = goAppend_same [OF a1]
  note F1 = goAppend_frame [OF a1 ne0 a_lt1]
  have wfb1: "wfSlice w2 b1" by (rule goAppend_wf [OF wf0 a1])
  have by1: "bytesOf w2 b1 = bytesOf w hB"
    using goAppend_bytes [OF wf0 a1] sl m1 by (simp add: bytesOf_def)
  have a_lt2: "a < nextAddr w2" using a_lt1 S1 by simp
  have ne1: "a \<noteq> base b1" using F1 by simp
  note S2 = goAppend_same [OF a2]
  note F2 = goAppend_frame [OF a2 ne1 a_lt2]
  have wfb2: "wfSlice w3 b2" by (rule goAppend_wf [OF wfb1 a2])
  have m2: "mem w2 a = mem w a" using F1 m1 by simp
  have by2: "bytesOf w3 b2 = bytesOf w hB @ bytesOf w ch"
    using goAppend_bytes [OF wfb1 a2] by1 sl m2 by (simp add: bytesOf_def)
  have a_lt3: "a < nextAddr w3" using a_lt2 S2 by simp
  have ne2: "a \<noteq> base b2" using F2 by simp
  note S3 = goAppend_same [OF a3]
  note F3 = goAppend_frame [OF a3 ne2 a_lt3]
  have m3: "mem w3 a = mem w a" using F2 m2 by simp
  show "bytesOf w4 b3 = bytesOf w hB @ bytesOf w ch @ bytesOf w tB"
    using goAppend_bytes [OF wfb2 a3] by2 sl m3 by (simp add: bytesOf_def)
  show "wfSlice w4 b3" by (rule goAppend_wf [OF wfb2 a3])
  show "base b3 \<noteq> a" using F3 by simp
  show "mem w4 a = mem w a" using F3 m3 by simp
  have keep: "wfSlice w4 t" if "wfSlice w1 t" for t
    using that goAppend_keeps_wf [OF wf0 a1] goAppend_keeps_wf [OF wfb1 a2]
      goAppend_keeps_wf [OF wfb2 a3] by blast
  show "wfPool w4"
    using G(2) S1 S2 S3 keep by (auto simp: wfPool_def list_all_iff)
  show "owned w4 a" using o1 S1 S2 S3 by (auto simp: owned_def)
  show "nextAddr w \<le> nextAddr w4" using G(6) S1 S2 S3 by simp
  show "now w4 = now w" using G S1 S2 S3 by simp
  show "trace w4 = trace w @ [PoolGet got]" using G S1 S2 S3 by simp
  show "growslice w4 = growslice w" using G S1 S2 S3 by simp
qed

subsection \<open>The splitting loop\<close>

lemma specChunks_prefix:
  assumes "0 < n" "list_all (\<lambda>ch. length ch = n) sent"
  shows "specChunks n (concat sent @ rest) = sent @ specChunks n rest"
  using assms
proof (induction sent)
  case Nil
  then show ?case by simp
next
  case (Cons ch sent)
  then have "ch \<noteq> []" by auto
  with Cons show ?case by (subst specChunks.simps) simp
qed

lemma specChunks_short:
  assumes "0 < length r" "length r \<le> n"
  shows "specChunks n r = [r]"
proof -
  have n: "0 < n" using assms by linarith
  have "specChunks n (drop n r) = []" using assms by (subst specChunks.simps) simp
  then show ?thesis using assms n by (subst specChunks.simps) auto
qed

lemma specChunks_concat: "0 < n \<Longrightarrow> concat (specChunks n xs) = xs"
proof (induction n xs rule: specChunks.induct)
  case (1 n xs)
  show ?case
  proof (cases "xs = []")
    case True
    then show ?thesis by (subst specChunks.simps) simp
  next
    case False
    with 1 show ?thesis by (subst specChunks.simps) simp
  qed
qed

lemma specChunks_length: "ch \<in> set (specChunks n xs) \<Longrightarrow> length ch \<le> n \<and> ch \<noteq> []"
proof (induction n xs rule: specChunks.induct)
  case (1 n xs)
  show ?case
  proof (cases "n = 0 \<or> xs = []")
    case True
    with 1(2) show ?thesis by (subst (asm) specChunks.simps) simp
  next
    case False
    from 1(2) have "ch = take n xs \<or> ch \<in> set (specChunks n (drop n xs))"
      using False by (subst (asm) specChunks.simps) auto
    with 1(1) False show ?thesis by auto
  qed
qed

lemma drop_overwrite_after:
  assumes "pos + length d \<le> k" "k \<le> length arr"
  shows "drop k (overwrite arr pos d) = drop k arr"
proof -
  have "length (take pos arr) = pos" using assms by simp
  then show ?thesis using assms by (simp add: overwrite_def)
qed

lemma splitLoop_returns:
  assumes "0 < avail" "wfPool w" "owned w a" "base hB = a" "base tB = a" "base cB = a"
    "wfSlice w hB" "wfSlice w tB" "wfSlice w cB"
  shows "\<exists>r w' tr sent.
     splitLoop f c hB tB avail cB w = Some (Returns r w')
     \<and> trace w' = trace w @ tr
     \<and> mem w' a = mem w a \<and> wfPool w' \<and> owned w' a \<and> nextAddr w \<le> nextAddr w'
     \<and> now w' = now w
     \<and> list_all (\<lambda>s. base s \<noteq> a) (puts tr)
     \<and> list_all (\<lambda>ch. int (length ch) = avail) sent
     \<and> writes tr = map (\<lambda>ch. bytesOf w hB @ ch @ bytesOf w tB) sent
     \<and> (\<exists>rest. bytesOf w cB = concat sent @ rest)
     \<and> (fst r = None \<longrightarrow>
           base (snd r) = a \<and> wfSlice w' (snd r)
           \<and> bytesOf w cB = concat sent @ bytesOf w' (snd r)
           \<and> int (len (snd r)) \<le> avail
           \<and> (0 < len cB \<longrightarrow> 0 < len (snd r)))
     \<and> (healthy c \<longrightarrow> fst r = None)"
  using assms
proof (induction "len cB" arbitrary: cB w rule: less_induct)
  case less
  note inv = less.prems
  let ?H = "bytesOf w hB" and ?T = "bytesOf w tB" and ?C = "bytesOf w cB"
  show ?case
  proof (cases "int (len cB) > avail")
    case False
    have "splitLoop f c hB tB avail cB w = Some (Returns (None, cB) w)"
      using False by (subst splitLoop.simps) simp
    moreover have "int (len cB) \<le> avail" using False by simp
    ultimately show ?thesis
      using inv by (intro exI [of _ "(None, cB)"] exI [of _ w] exI [of _ "[]"]) simp
  next
    case True
    obtain got w1 where g: "poolGet w = (got, w1)" by (cases "poolGet w")
    obtain b1 w2 where a1: "goAppend (got\<lparr>len := 0\<rparr>) (bytesOf w1 hB) w1 = (b1, w2)"
      by (cases "goAppend (got\<lparr>len := 0\<rparr>) (bytesOf w1 hB) w1")
    from sliceTo_props [of w cB avail] inv True
    obtain ch where ch: "sliceTo cB avail = Inr ch" "base ch = a" "wfSlice w ch"
      "bytesOf w ch = take (nat avail) ?C" "len ch = nat avail"
      by auto
    obtain b2 w3 where a2: "goAppend b1 (bytesOf w2 ch) w2 = (b2, w3)"
      by (cases "goAppend b1 (bytesOf w2 ch) w2")
    obtain b3 w4 where a3: "goAppend b2 (bytesOf w3 tB) w3 = (b3, w4)"
      by (cases "goAppend b2 (bytesOf w3 tB) w3")
    obtain err w5 where wp: "writePart f c b3 w4 = (err, w5)"
      by (cases "writePart f c b3 w4")
    define w6 where "w6 = poolPut b3 w5"
    note FB = fragment_build [OF inv(2,3,4,5) ch(2) g a1 a2 a3]
    from writePart_world [OF wp] obtain tr5 where
      w5: "w5 = w4\<lparr>trace := trace w4 @ tr5\<rparr>"
      and tr5: "tr5 = [SetWriteDeadline (now w4 + forwardConnWriteTimeout)] \<and> err \<noteq> None
         \<or> tr5 = [SetWriteDeadline (now w4 + forwardConnWriteTimeout), Write (bytesOf w4 b3)]"
      by blast
    have lenC: "length ?C = len cB" using inv by (simp add: length_bytesOf)
    have lench: "int (length (take (nat avail) ?C)) = avail"
      using True lenC inv(1) by simp
    have w6_props: "mem w6 a = mem w a" "wfPool w6" "owned w6 a" "nextAddr w \<le> nextAddr w6"
      "now w6 = now w" "trace w6 = trace w @ [PoolGet got] @ tr5 @ [PoolPut b3]"
      using FB by (simp_all add: w6_def w5 poolPut_props)
    have unfold: "splitLoop f c hB tB avail cB w =
       (if err \<noteq> None then Some (Returns (err, cB) w6)
        else (case sliceFrom cB avail of Inl p \<Rightarrow> Some (Panics p w6)
              | Inr rest \<Rightarrow> splitLoop f c hB tB avail rest w6))"
      unfolding w6_def using True g a1 a2 a3 ch(1) wp
      by (subst splitLoop.simps) (simp add: Let_def)
    show ?thesis
    proof (cases err)
      case (Some e)
      have res: "splitLoop f c hB tB avail cB w = Some (Returns (err, cB) w6)"
        using unfold Some by simp
      have nh: "\<not> healthy c"
        using writePart_healthy [of c w4 b3 f] wp Some FB(2) by auto
      from tr5 show ?thesis
      proof
        assume "tr5 = [SetWriteDeadline (now w4 + forwardConnWriteTimeout)] \<and> err \<noteq> None"
        then show ?thesis
          using res w6_props FB(3) Some nh
          by (intro exI [of _ "(err, cB)"] exI [of _ w6]
              exI [of _ "[PoolGet got] @ tr5 @ [PoolPut b3]"] exI [of _ "[]"]) simp
      next
        assume "tr5 = [SetWriteDeadline (now w4 + forwardConnWriteTimeout), Write (bytesOf w4 b3)]"
        then show ?thesis
          using res w6_props FB(1,3) Some ch(4) lench nh
          by (intro exI [of _ "(err, cB)"] exI [of _ w6]
              exI [of _ "[PoolGet got] @ tr5 @ [PoolPut b3]"]
              exI [of _ "[take (nat avail) ?C]"])
            (auto intro: exI [of _ "drop (nat avail) ?C"])
      qed
    next
      case None
      with tr5 have tr5': "tr5 = [SetWriteDeadline (now w4 + forwardConnWriteTimeout), Write (bytesOf w4 b3)]"
        by simp
      from sliceFrom_props [of w cB avail] inv True
      obtain rest where rest: "sliceFrom cB avail = Inr rest" "base rest = a" "wfSlice w rest"
        "bytesOf w rest = drop (nat avail) ?C" "len rest = len cB - nat avail"
        by auto
      have res: "splitLoop f c hB tB avail cB w = splitLoop f c hB tB avail rest w6"
        using unfold None rest(1) by simp
      have smaller: "len rest < len cB" using rest(5) inv(1) True by simp
      have wf6: "wfSlice w6 hB" "wfSlice w6 tB" "wfSlice w6 rest"
        using inv rest w6_props by (auto intro: wfSlice_cong)
      have same6: "bytesOf w6 hB = ?H" "bytesOf w6 tB = ?T" "bytesOf w6 rest = drop (nat avail) ?C"
        using inv rest w6_props by (auto simp: bytesOf_def)
      from less.hyps [OF smaller inv(1) w6_props(2,3) inv(4,5) rest(2) wf6]
      obtain r w' tr sent where IH:
        "splitLoop f c hB tB avail rest w6 = Some (Returns r w')"
        "trace w' = trace w6 @ tr"
        "mem w' a = mem w6 a" "wfPool w'" "owned w' a" "nextAddr w6 \<le> nextAddr w'"
        "now w' = now w6"
        "list_all (\<lambda>s. base s \<noteq> a) (puts tr)"
        "list_all (\<lambda>ch. int (length ch) = avail) sent"
        "writes tr = map (\<lambda>ch. bytesOf w6 hB @ ch @ bytesOf w6 tB) sent"
        "\<exists>rest'. bytesOf w6 rest = concat sent @ rest'"
        "fst r = None \<longrightarrow>
           base (snd r) = a \<and> wfSlice w' (snd r)
           \<and> bytesOf w6 rest = concat sent @ bytesOf w' (snd r)
           \<and> int (len (snd r)) \<le> avail
           \<and> (0 < len rest \<longrightarrow> 0 < len (snd r))"
        "healthy c \<longrightarrow> fst r = None"
        by (elim exE conjE) (rule that, (assumption | rule exI)+)
      have posrest: "0 < len rest" using rest(5) True inv(1) by simp
      have split: "?C = take (nat avail) ?C @ drop (nat avail) ?C" by simp
      show ?thesis
        apply (rule exI [of _ r], rule exI [of _ w'])
        apply (rule exI [of _ "[PoolGet got] @ tr5 @ [PoolPut b3] @ tr"])
        apply (rule exI [of _ "take (nat avail) ?C # sent"])
        using res IH w6_props FB(1,3) tr5' same6 ch(4) lench posrest
        apply (intro conjI)
                   apply simp_all
         apply (metis append_take_drop_id append.assoc)
        apply (metis append_take_drop_id append.assoc)
        done
    qed
  qed
qed

subsection \<open>Splitting a message\<close>

lemma message_parts:
  assumes "wfMessage w m"
  shows "headerOf w m @ contentOf w m @ trailerOf w m = bytesOf w (buffer m)"
    and "length (headerOf w m) = nat (headerIdx m)"
    and "length (contentOf w m) = nat (contentIdx m) - nat (headerIdx m)"
    and "length (trailerOf w m) = len (buffer m) - nat (contentIdx m)"
    and "length (bytesOf w (buffer m)) = len (buffer m)"
proof -
  let ?b = "bytesOf w (buffer m)"
  have L: "length ?b = len (buffer m)" using assms by (simp add: wfMessage_def length_bytesOf)
  have le: "nat (headerIdx m) \<le> nat (contentIdx m)" "nat (contentIdx m) \<le> len (buffer m)"
    using assms by (auto simp: wfMessage_def)
  show "length (headerOf w m) = nat (headerIdx m)" using L le by (simp add: headerOf_def)
  show "length (contentOf w m) = nat (contentIdx m) - nat (headerIdx m)"
    using L le by (simp add: contentOf_def)
  show "length (trailerOf w m) = len (buffer m) - nat (contentIdx m)"
    using L by (simp add: trailerOf_def)
  show "length ?b = len (buffer m)" by (rule L)
  have "take (nat (contentIdx m) - nat (headerIdx m)) (drop (nat (headerIdx m)) ?b)
      = drop (nat (headerIdx m)) (take (nat (contentIdx m)) ?b)"
    by (simp add: drop_take)
  moreover have "take (nat (headerIdx m)) ?b = take (nat (headerIdx m)) (take (nat (contentIdx m)) ?b)"
    using le by (simp add: min_def)
  ultimately have "headerOf w m @ contentOf w m = take (nat (contentIdx m)) ?b"
    unfolding headerOf_def contentOf_def by (metis append_take_drop_id)
  then show "headerOf w m @ contentOf w m @ trailerOf w m = ?b"
    unfolding trailerOf_def by (metis append.assoc append_take_drop_id)
qed

lemma sliceTo_shape:
  "sliceTo s n = Inr ch \<Longrightarrow> cap ch = cap s \<and> off ch = off s \<and> base ch = base s \<and> len ch = nat n"
  by (auto simp: sliceTo_def sliceRange_def split: if_splits)

lemma splitParts_returns:
  assumes m: "wfMessage w m" and p: "wfPool w" and o: "owned w (base (buffer m))"
    and ok: "messageLimit f \<le> 0 \<or> int (len (buffer m)) \<le> messageLimit f
             \<or> int (length (headerOf w m)) + int (length (trailerOf w m)) < messageLimit f"
  shows "\<exists>err w' tr k.
      splitParts f c m w = Some (Returns err w') \<and> trace w' = trace w @ tr
      \<and> wfPool w' \<and> owned w' (base (buffer m)) \<and> wfSlice w' (buffer m) \<and> now w' = now w
      \<and> list_all (\<lambda>s. base s \<noteq> base (buffer m)) (puts tr)
      \<and> writes tr = take k (specDatagrams (messageLimit f) (headerOf w m) (contentOf w m) (trailerOf w m))
      \<and> (err = None \<longrightarrow>
           writes tr = specDatagrams (messageLimit f) (headerOf w m) (contentOf w m) (trailerOf w m))
      \<and> (healthy c \<longrightarrow> err = None)"
proof -
  let ?s = "buffer m" and ?a = "base (buffer m)"
  let ?H = "headerOf w m" and ?C = "contentOf w m" and ?T = "trailerOf w m"
  let ?lim = "messageLimit f"
  note MP = message_parts [OF m]
  have wfs: "wfSlice w ?s" using m by (simp add: wfMessage_def)
  have idx: "0 \<le> headerIdx m" "headerIdx m \<le> contentIdx m" "contentIdx m \<le> int (len ?s)"
    using m by (simp_all add: wfMessage_def)
  have fullLen: "int (length (?H @ ?C @ ?T)) = int (len ?s)" using MP(1,5) by simp
  show ?thesis
  proof (cases "?lim \<le> 0 \<or> int (len ?s) \<le> ?lim")
    case True
    obtain err w' where wp: "writePart f c ?s w = (err, w')" by (cases "writePart f c ?s w")
    have res: "splitParts f c m w = Some (Returns err w')"
      using True wp by (simp add: splitParts_def Let_def)
    have spec: "specDatagrams ?lim ?H ?C ?T = [bytesOf w ?s]"
    proof -
      have "?lim \<le> 0 \<or> int (length (?H @ ?C @ ?T)) \<le> ?lim" using True fullLen by metis
      then show ?thesis unfolding specDatagrams_def using MP(1) by (simp only: if_True)
    qed
    from writePart_world [OF wp] obtain tr where
      w': "w' = w\<lparr>trace := trace w @ tr\<rparr>"
      and tr: "tr = [SetWriteDeadline (now w + forwardConnWriteTimeout)] \<and> err \<noteq> None
         \<or> tr = [SetWriteDeadline (now w + forwardConnWriteTimeout), Write (bytesOf w ?s)]"
      by blast
    have h: "healthy c \<longrightarrow> err = None" using writePart_healthy [OF _ wfs, of c f] wp by auto
    from tr show ?thesis
    proof
      assume "tr = [SetWriteDeadline (now w + forwardConnWriteTimeout)] \<and> err \<noteq> None"
      then show ?thesis using res w' p o wfs h
        by (intro exI [of _ err] exI [of _ w'] exI [of _ tr] exI [of _ 0]) auto
    next
      assume "tr = [SetWriteDeadline (now w + forwardConnWriteTimeout), Write (bytesOf w ?s)]"
      then show ?thesis using res w' p o wfs h spec
        by (intro exI [of _ err] exI [of _ w'] exI [of _ tr] exI [of _ 1]) auto
    qed
  next
    case False
    then have slow: "0 < ?lim" "?lim < int (len ?s)" by auto
    from sliceTo_props [OF wfs idx(1)] idx obtain hB where
      hB: "sliceTo ?s (headerIdx m) = Inr hB" "base hB = ?a" "wfSlice w hB"
        "bytesOf w hB = ?H" "len hB = nat (headerIdx m)" "off hB = off ?s"
      unfolding headerOf_def by force
    have caphB: "cap hB = cap ?s" using sliceTo_shape [OF hB(1)] by simp
    from sliceFrom_props [OF wfs _ idx(3)] idx obtain tB where
      tB: "sliceFrom ?s (contentIdx m) = Inr tB" "base tB = ?a" "wfSlice w tB"
        "bytesOf w tB = ?T" "len tB = len ?s - nat (contentIdx m)"
        "off tB = off ?s + nat (contentIdx m)"
      unfolding trailerOf_def by force
    from sliceRange_props [OF wfs idx] obtain cB where
      cB: "sliceRange ?s (headerIdx m) (contentIdx m) = Inr cB" "base cB = ?a" "wfSlice w cB"
        "bytesOf w cB = ?C" "len cB = nat (contentIdx m) - nat (headerIdx m)"
      unfolding contentOf_def by force
    define avail where "avail = ?lim - (int (len hB) + int (len tB))"
    have avail: "0 < avail"
      using ok False MP(2,4) hB(5) tB(5) by (simp add: avail_def)
    have lens: "int (len hB) + int (len cB) + int (len tB) = int (len ?s)"
      using hB(5) cB(5) tB(5) idx by simp
    have cpos: "avail < int (len cB)" using slow lens by (simp add: avail_def)
    from splitLoop_returns [OF avail p o hB(2) tB(2) cB(2) hB(3) tB(3) cB(3), of f c]
    obtain r w1 tr1 sent where L:
      "splitLoop f c hB tB avail cB w = Some (Returns r w1)"
      "trace w1 = trace w @ tr1"
      "mem w1 ?a = mem w ?a" "wfPool w1" "owned w1 ?a" "nextAddr w \<le> nextAddr w1"
      "now w1 = now w"
      "list_all (\<lambda>s. base s \<noteq> ?a) (puts tr1)"
      "list_all (\<lambda>ch. int (length ch) = avail) sent"
      "writes tr1 = map (\<lambda>ch. bytesOf w hB @ ch @ bytesOf w tB) sent"
      "\<exists>rest. bytesOf w cB = concat sent @ rest"
      "fst r = None \<longrightarrow>
           base (snd r) = ?a \<and> wfSlice w1 (snd r)
           \<and> bytesOf w cB = concat sent @ bytesOf w1 (snd r)
           \<and> int (len (snd r)) \<le> avail
           \<and> (0 < len cB \<longrightarrow> 0 < len (snd r))"
      "healthy c \<longrightarrow> fst r = None"
      by (elim exE conjE) (rule that, (assumption | rule exI)+)
    obtain e cB' where r: "r = (e, cB')" by (cases r)
    have sentn: "list_all (\<lambda>ch. length ch = nat avail) sent"
      using L(9) avail by (auto simp: list_all_iff)
    have navail: "0 < nat avail" using avail by simp
    have spec: "specDatagrams ?lim ?H ?C ?T
        = map (\<lambda>ch. ?H @ ch @ ?T) (specChunks (nat avail) ?C)"
      using False fullLen hB(5) tB(5) MP(2,4) unfolding specDatagrams_def avail_def
      by (simp add: algebra_simps)
    have wf1: "wfSlice w1 hB" "wfSlice w1 tB" "wfSlice w1 ?s"
      using hB tB wfs L(3,6) by (auto intro: wfSlice_cong)
    have same1: "bytesOf w1 hB = ?H" "bytesOf w1 tB = ?T"
      using hB tB L(3) by (auto simp: bytesOf_def)
    show ?thesis
    proof (cases e)
      case (Some x)
      have res: "splitParts f c m w = Some (Returns (Some x) w1)"
        using False hB(1) tB(1) cB(1) L(1) r Some
        by (simp add: splitParts_def Let_def avail_def)
      from L(11) cB(4) obtain rest where rest: "?C = concat sent @ rest" by auto
      have "specChunks (nat avail) ?C = sent @ specChunks (nat avail) rest"
        using specChunks_prefix [OF navail sentn] rest by simp
      then have "writes tr1 = take (length sent) (specDatagrams ?lim ?H ?C ?T)"
        using L(10) hB(4) tB(4) spec by simp
      then show ?thesis
        using res L wf1 r Some
        by (intro exI [of _ "Some x"] exI [of _ w1] exI [of _ tr1] exI [of _ "length sent"]) auto
    next
      case None
      with L(12) r cpos avail have R:
        "base cB' = ?a" "wfSlice w1 cB'" "bytesOf w cB = concat sent @ bytesOf w1 cB'"
        "int (len cB') \<le> avail" "0 < len cB'"
        by auto
      let ?R = "bytesOf w1 cB'"
      have lenR: "length ?R = len cB'" using R(2) by (simp add: length_bytesOf)
      have "length (bytesOf w cB) = len cB" using cB(3) by (simp add: length_bytesOf)
      then have Rle: "len cB' \<le> len cB" using R(3) lenR
        by (metis le_add2 length_append)
      have fits: "len hB + length ?R \<le> cap hB"
        using Rle lenR caphB hB(5) cB(5) idx wfs by (auto simp: wfSlice_def)
      define b1 where "b1 = hB\<lparr>len := len hB + length ?R\<rparr>"
      define w2 where "w2 = w1\<lparr>mem := (mem w1)(base hB := overwrite (mem w1 (base hB)) (off hB + len hB) ?R)\<rparr>"
      have a1: "goAppend hB ?R w1 = (b1, w2)"
        unfolding b1_def w2_def by (rule goAppend_inplace [OF fits])
      have by1: "bytesOf w2 b1 = ?H @ ?R" using goAppend_bytes [OF wf1(1) a1] same1 by simp
      have wfb1: "wfSlice w2 b1" by (rule goAppend_wf [OF wf1(1) a1])
      have arr: "off ?s + nat (contentIdx m) \<le> length (mem w1 ?a)"
        using wf1(3) idx by (auto simp: wfSlice_def)
      have nle: "nat (headerIdx m) \<le> nat (contentIdx m)" using idx by simp
      have "off hB + len hB + length ?R \<le> off tB"
        using hB(5,6) tB(6) lenR Rle cB(5) nle by linarith
      moreover have "off tB \<le> length (mem w1 ?a)" using arr tB(6) by simp
      ultimately have "drop (off tB) (overwrite (mem w1 ?a) (off hB + len hB) ?R)
          = drop (off tB) (mem w1 ?a)"
        by (rule drop_overwrite_after)
      then have "drop (off tB) (mem w2 ?a) = drop (off tB) (mem w1 ?a)"
        unfolding w2_def using hB(2) by simp
      then have tail: "bytesOf w2 tB = ?T" using same1(2) tB(2) by (simp add: bytesOf_def)
      obtain b2 w3 where a2: "goAppend b1 (bytesOf w2 tB) w2 = (b2, w3)"
        by (cases "goAppend b1 (bytesOf w2 tB) w2")
      have by2: "bytesOf w3 b2 = ?H @ ?R @ ?T" using goAppend_bytes [OF wfb1 a2] by1 tail by simp
      have wfb2: "wfSlice w3 b2" by (rule goAppend_wf [OF wfb1 a2])
      obtain err w4 where wp: "writePart f c b2 w3 = (err, w4)" by (cases "writePart f c b2 w3")
      have res: "splitParts f c m w = Some (Returns err w4)"
        using False hB(1) tB(1) cB(1) L(1) r None R(5) a1 a2 wp
        by (simp add: splitParts_def Let_def avail_def)
      note S1 = goAppend_same [OF a1] and S2 = goAppend_same [OF a2]
      have keep: "wfSlice w3 t" if "wfSlice w1 t" for t
        using that goAppend_keeps_wf [OF wf1(1) a1] goAppend_keeps_wf [OF wfb1 a2] by blast
      have inv3: "wfPool w3" "owned w3 ?a" "wfSlice w3 ?s" "now w3 = now w" "trace w3 = trace w @ tr1"
        using L(2,4,5,7) S1 S2 keep wf1(3) by (auto simp: wfPool_def list_all_iff owned_def)
      from writePart_world [OF wp] obtain tr where
        w4: "w4 = w3\<lparr>trace := trace w3 @ tr\<rparr>"
        and tr: "tr = [SetWriteDeadline (now w3 + forwardConnWriteTimeout)] \<and> err \<noteq> None
           \<or> tr = [SetWriteDeadline (now w3 + forwardConnWriteTimeout), Write (bytesOf w3 b2)]"
        by blast
      have h: "healthy c \<longrightarrow> err = None" using writePart_healthy [OF _ wfb2, of c f] wp by auto
      have Rn: "0 < length ?R" "length ?R \<le> nat avail" using R(4,5) lenR by auto
      have chunks: "specChunks (nat avail) ?C = sent @ [?R]"
        using specChunks_prefix [OF navail sentn, of ?R] specChunks_short [OF Rn] R(3) cB(4) by simp
      from tr show ?thesis
      proof
        assume "tr = [SetWriteDeadline (now w3 + forwardConnWriteTimeout)] \<and> err \<noteq> None"
        then show ?thesis
          using res w4 inv3 h L(8,10) hB(4) tB(4) spec chunks
          by (intro exI [of _ err] exI [of _ w4] exI [of _ "tr1 @ tr"] exI [of _ "length sent"]) auto
      next
        assume "tr = [SetWriteDeadline (now w3 + forwardConnWriteTimeout), Write (bytesOf w3 b2)]"
        then show ?thesis
          using res w4 inv3 h L(8,10) hB(4) tB(4) spec chunks by2
          by (intro exI [of _ err] exI [of _ w4] exI [of _ "tr1 @ tr"] exI [of _ "Suc (length sent)"]) auto
      qed
    qed
  qed
qed

subsection \<open>A loop that never ends\<close>

lemma splitLoop_never_returns:
  assumes ret: "splitLoop f c hB tB avail cB w = Some y"
  shows "\<not> (healthy c \<and> avail = 0 \<and> 0 < len cB \<and> wfPool w \<and> owned w (base hB)
            \<and> base tB = base hB \<and> base cB = base hB
            \<and> wfSlice w hB \<and> wfSlice w tB \<and> wfSlice w cB)"
proof -
  define Q where "Q = (\<lambda>(f::syslogForwarder) c hB tB (avail::int) cB w
      (y::(string option \<times> slice) result).
      \<not> (healthy c \<and> avail = 0 \<and> 0 < len cB \<and> wfPool w \<and> owned w (base hB)
            \<and> base tB = base hB \<and> base cB = base hB
            \<and> wfSlice w hB \<and> wfSlice w tB \<and> wfSlice w cB))"
  have "Q f c hB tB avail cB w y"
  proof (rule splitLoop.raw_induct [where P = Q, OF _ ret], goal_cases)
  case (1 loop f c hB tB avail cB w y)
  note IH = 1(1) and unf = 1(2)
  show ?case unfolding Q_def
  proof
    assume inv: "healthy c \<and> avail = 0 \<and> 0 < len cB \<and> wfPool w \<and> owned w (base hB)
            \<and> base tB = base hB \<and> base cB = base hB
            \<and> wfSlice w hB \<and> wfSlice w tB \<and> wfSlice w cB"
    let ?a = "base hB"
    obtain got w1 where g: "poolGet w = (got, w1)" by (cases "poolGet w")
    obtain b1 w2 where a1: "goAppend (got\<lparr>len := 0\<rparr>) (bytesOf w1 hB) w1 = (b1, w2)"
      by (cases "goAppend (got\<lparr>len := 0\<rparr>) (bytesOf w1 hB) w1")
    from sliceTo_props [of w cB 0] inv
    obtain ch where ch: "sliceTo cB 0 = Inr ch" "base ch = ?a" "wfSlice w ch" by auto
    obtain b2 w3 where a2: "goAppend b1 (bytesOf w2 ch) w2 = (b2, w3)"
      by (cases "goAppend b1 (bytesOf w2 ch) w2")
    obtain b3 w4 where a3: "goAppend b2 (bytesOf w3 tB) w3 = (b3, w4)"
      by (cases "goAppend b2 (bytesOf w3 tB) w3")
    have p: "wfPool w" and o: "owned w ?a" and bt: "base tB = ?a" using inv by auto
    note FB = fragment_build [OF p o refl bt ch(2) g a1 a2 a3]
    define w5 where "w5 = w4\<lparr>trace := trace w4 @ [SetWriteDeadline (now w4 + forwardConnWriteTimeout), Write (bytesOf w4 b3)]\<rparr>"
    have wp: "writePart f c b3 w4 = (None, w5)"
      unfolding w5_def using inv FB(2) by (simp add: writePart_healthy)
    define w6 where "w6 = poolPut b3 w5"
    from sliceFrom_props [of w cB 0] inv
    obtain rest where rest: "sliceFrom cB 0 = Inr rest" "base rest = ?a" "wfSlice w rest"
      "len rest = len cB - nat 0"
      by auto
    have body: "loop f c hB tB avail rest w6 = Some y"
      using unf inv g a1 a2 a3 ch(1) wp rest(1) unfolding w6_def by (simp add: Let_def)
    have w6_props: "mem w6 ?a = mem w ?a" "wfPool w6" "owned w6 ?a" "nextAddr w \<le> nextAddr w6"
      using FB by (simp_all add: w6_def w5_def poolPut_props)
    have "wfSlice w6 hB" "wfSlice w6 tB" "wfSlice w6 rest"
      using inv rest w6_props by (auto intro: wfSlice_cong)
    with IH [OF body] inv rest w6_props show False by (simp add: Q_def)
  qed
  qed
  then show ?thesis by (simp add: Q_def)
qed

lemma splitLoop_diverges:
  assumes "healthy c" "0 < len cB" "wfPool w" "owned w (base hB)" "base tB = base hB"
    "base cB = base hB" "wfSlice w hB" "wfSlice w tB" "wfSlice w cB"
  shows "splitLoop f c hB tB 0 cB w = None"
proof (cases "splitLoop f c hB tB 0 cB w")
  case None
  then show ?thesis .
next
  case (Some y)
  from splitLoop_never_returns [OF Some] assms show ?thesis by simp
qed

subsection \<open>The datagrams of a message\<close>

lemma contentRegion_fragment [simp]:
  "contentRegion (length h) (length t) (h @ ch @ t) = ch"
  by (simp add: contentRegion_def)

lemma specDatagrams_shape:
  "d \<in> set (specDatagrams lim h c t) \<Longrightarrow> \<exists>chunk. d = h @ chunk @ t"
  by (auto simp: specDatagrams_def split: if_splits)

lemma specDatagrams_bound:
  assumes "d \<in> set (specDatagrams lim h c t)" "0 < lim"
    "int (length (h @ c @ t)) \<le> lim \<or> int (length h) + int (length t) < lim"
  shows "int (length d) \<le> lim"
proof (cases "int (length (h @ c @ t)) \<le> lim")
  case True
  with assms show ?thesis by (simp add: specDatagrams_def)
next
  case False
  with assms obtain ch where
    ch: "ch \<in> set (specChunks (nat (lim - int (length h) - int (length t))) c)" "d = h @ ch @ t"
    by (auto simp: specDatagrams_def)
  from specChunks_length [OF ch(1)] have "length ch \<le> nat (lim - int (length h) - int (length t))"
    by simp
  with assms False ch(2) show ?thesis by simp
qed

lemma specDatagrams_content:
  assumes "lim \<le> 0 \<or> int (length (h @ c @ t)) \<le> lim \<or> int (length h) + int (length t) < lim"
  shows "concat (map (contentRegion (length h) (length t)) (specDatagrams lim h c t)) = c"
proof (cases "lim \<le> 0 \<or> int (length (h @ c @ t)) \<le> lim")
  case True
  then have "specDatagrams lim h c t = [h @ c @ t]" unfolding specDatagrams_def by (simp only: if_True)
  then show ?thesis by simp
next
  case False
  with assms have pos: "0 < nat (lim - int (length h) - int (length t))" by simp
  have "map (contentRegion (length h) (length t)) (map (\<lambda>chunk. h @ chunk @ t) xs) = xs" for xs
    by (induction xs) simp_all
  with False specChunks_concat [OF pos, of c] show ?thesis
    unfolding specDatagrams_def by simp
qed

text \<open>
  C1 (amended). A UDP forwarder is what \<^verbatim>\<open>connect\<close> makes of the forwarder that
  \<^verbatim>\<open>initialize\<close> built: its message limit is the MTU less 100, and the MTU is the one
  the named interface reports when it can be read and is positive, 1500 otherwise. For a
  message whose buffer is owned by the worker, \<^verbatim>\<open>splitParts\<close> returns whenever the limit
  is not positive, or the message fits, or the limit leaves room for content after the
  header and the trailer. Every datagram it hands to the connection is then the header,
  a chunk and the trailer; with a positive limit none is longer than the limit; when no
  write fails, the content regions of the datagrams concatenate to the content of the
  message; and with a limit that is not positive the message goes out whole, in one
  datagram. A healthy peer makes no write fail.
\<close>

theorem udp_split_within_limit:
  assumes con: "connect tbl dial \<lparr>furl = u, mtu = initializeMtu ifname lookup, messageLimit = 0\<rparr> = (Inr c, f)"
    and udp: "scheme u \<noteq> ''tcp''"
    and m: "wfMessage w m" and p: "wfPool w" and o: "owned w (base (buffer m))"
    and ok: "messageLimit f \<le> 0 \<or> int (len (buffer m)) \<le> messageLimit f
             \<or> 0 < messageLimit f - (headerIdx m + (int (len (buffer m)) - contentIdx m))"
  shows "messageLimit f = initializeMtu ifname lookup - 100
     \<and> initializeMtu ifname lookup =
         (case lookup ifname of Inr v \<Rightarrow> if ifname \<noteq> [] \<and> 0 < v then v else 1500 | Inl e \<Rightarrow> 1500)
     \<and> (\<exists>err w' tr. splitParts f c m w = Some (Returns err w') \<and> trace w' = trace w @ tr
          \<and> list_all (\<lambda>d. (0 < messageLimit f \<longrightarrow> int (length d) \<le> messageLimit f)
                          \<and> (\<exists>chunk. d = headerOf w m @ chunk @ trailerOf w m)) (writes tr)
          \<and> (err = None \<longrightarrow>
                concat (map (contentRegion (length (headerOf w m)) (length (trailerOf w m))) (writes tr))
                  = contentOf w m)
          \<and> (messageLimit f \<le> 0 \<and> err = None \<longrightarrow> writes tr = [bytesOf w (buffer m)])
          \<and> (healthy c \<longrightarrow> err = None))"
proof -
  let ?H = "headerOf w m" and ?C = "contentOf w m" and ?T = "trailerOf w m"
  let ?lim = "messageLimit f"
  note MP = message_parts [OF m]
  have idx: "0 \<le> headerIdx m" "headerIdx m \<le> contentIdx m" "contentIdx m \<le> int (len (buffer m))"
    using m by (simp_all add: wfMessage_def)
  have lim: "?lim = initializeMtu ifname lookup - 100"
    using con udp by (auto simp: connect_def udpHeaderSz_def split: sum.splits if_splits)
  have mtu: "initializeMtu ifname lookup =
         (case lookup ifname of Inr v \<Rightarrow> if ifname \<noteq> [] \<and> 0 < v then v else 1500 | Inl e \<Rightarrow> 1500)"
    by (simp add: initializeMtu_def udpMessageDefaultMTU_def split: sum.splits)
  have full: "int (length (?H @ ?C @ ?T)) = int (len (buffer m))" using MP(1,5) by simp
  have ht: "int (length ?H) + int (length ?T) = headerIdx m + (int (len (buffer m)) - contentIdx m)"
    using MP(2,4) idx by simp
  have ok': "?lim \<le> 0 \<or> int (len (buffer m)) \<le> ?lim \<or> int (length ?H) + int (length ?T) < ?lim"
    using ok ht by linarith
  from splitParts_returns [OF m p o ok', of c]
  obtain err w' tr k where R:
    "splitParts f c m w = Some (Returns err w')" "trace w' = trace w @ tr"
    "writes tr = take k (specDatagrams ?lim ?H ?C ?T)"
    "err = None \<longrightarrow> writes tr = specDatagrams ?lim ?H ?C ?T"
    "healthy c \<longrightarrow> err = None"
    by blast
  have mem: "d \<in> set (specDatagrams ?lim ?H ?C ?T)" if "d \<in> set (writes tr)" for d
    using that R(3) by (auto dest: in_set_takeD)
  have each: "list_all (\<lambda>d. (0 < ?lim \<longrightarrow> int (length d) \<le> ?lim)
                          \<and> (\<exists>chunk. d = ?H @ chunk @ ?T)) (writes tr)"
    unfolding list_all_iff
  proof (intro ballI conjI impI)
    fix d assume d: "d \<in> set (writes tr)"
    show "\<exists>chunk. d = ?H @ chunk @ ?T" using mem [OF d] by (rule specDatagrams_shape)
    assume "0 < ?lim"
    moreover have "int (length (?H @ ?C @ ?T)) \<le> ?lim \<or> int (length ?H) + int (length ?T) < ?lim"
      using ok' full \<open>0 < ?lim\<close> by linarith
    ultimately show "int (length d) \<le> ?lim" using specDatagrams_bound [OF mem [OF d]] by blast
  qed
  have ok'': "?lim \<le> 0 \<or> int (length (?H @ ?C @ ?T)) \<le> ?lim \<or> int (length ?H) + int (length ?T) < ?lim"
    using ok' full by linarith
  have content: "err = None \<longrightarrow>
      concat (map (contentRegion (length ?H) (length ?T)) (writes tr)) = ?C"
    using R(4) specDatagrams_content [OF ok''] by simp
  have whole: "?lim \<le> 0 \<and> err = None \<longrightarrow> writes tr = [bytesOf w (buffer m)]"
    using R(4) MP(1) by (auto simp: specDatagrams_def)
  show ?thesis using lim mtu R(1,2,5) each content whole by blast
qed

lemma ex_facts:
  "wfMessage exWorld exMessage" "wfPool exWorld" "owned exWorld (base (buffer exMessage))"
  "healthy peerOk" "bytesOf exWorld (buffer exMessage) = exLine"
  by (simp_all add: wfMessage_def wfSlice_def wfPool_def owned_def healthy_def exWorld_def
      exMessage_def peerOk_def exLine_def bytesOf_def)

theorem udp_split_within_limit_witness:
  "connect (isPrint exWorld) dialOk
      \<lparr>furl = furl (exForwarder 155), mtu = initializeMtu ''eth0'' (ifaceWithMtu 155), messageLimit = 0\<rparr>
      = (Inr peerOk, exForwarder 155)
   \<and> scheme (furl (exForwarder 155)) \<noteq> ''tcp''
   \<and> wfMessage exWorld exMessage \<and> wfPool exWorld \<and> owned exWorld (base (buffer exMessage))
   \<and> 0 < messageLimit (exForwarder 155)
         - (headerIdx exMessage + (int (len (buffer exMessage)) - contentIdx exMessage))
   \<and> messageLimit (exForwarder 155) = 55
   \<and> (\<exists>w' tr. splitParts (exForwarder 155) peerOk exMessage exWorld = Some (Returns None w')
         \<and> trace w' = trace exWorld @ tr
         \<and> list_all (\<lambda>d. int (length d) \<le> 55) (writes tr)
         \<and> concat (map (contentRegion 53 1) (writes tr)) = ''mymsg'')"
proof -
  have con: "connect (isPrint exWorld) dialOk
      \<lparr>furl = furl (exForwarder 155), mtu = initializeMtu ''eth0'' (ifaceWithMtu 155), messageLimit = 0\<rparr>
      = (Inr peerOk, exForwarder 155)"
    by (simp add: connect_def exForwarder_def initializeMtu_def udpHeaderSz_def dialOk_def
        ifaceWithMtu_def)
  have udp: "scheme (furl (exForwarder 155)) \<noteq> ''tcp''" by (simp add: exForwarder_def)
  have lim: "messageLimit (exForwarder 155) = 55" by (simp add: exForwarder_def udpHeaderSz_def)
  have ok: "messageLimit (exForwarder 155) \<le> 0
      \<or> int (len (buffer exMessage)) \<le> messageLimit (exForwarder 155)
      \<or> 0 < messageLimit (exForwarder 155)
         - (headerIdx exMessage + (int (len (buffer exMessage)) - contentIdx exMessage))"
    by (simp add: lim exMessage_def)
  have parts: "length (headerOf exWorld exMessage) = 53" "length (trailerOf exWorld exMessage) = 1"
    "contentOf exWorld exMessage = ''mymsg''"
    by (simp_all add: headerOf_def trailerOf_def contentOf_def ex_facts(5))
      (simp_all add: exMessage_def exLine_def)
  from udp_split_within_limit [OF con udp ex_facts(1,2,3) ok]
  obtain err w' tr where R:
    "splitParts (exForwarder 155) peerOk exMessage exWorld = Some (Returns err w')"
    "trace w' = trace exWorld @ tr"
    "list_all (\<lambda>d. (0 < messageLimit (exForwarder 155) \<longrightarrow> int (length d) \<le> messageLimit (exForwarder 155))
         \<and> (\<exists>chunk. d = headerOf exWorld exMessage @ chunk @ trailerOf exWorld exMessage)) (writes tr)"
    "err = None \<longrightarrow>
       concat (map (contentRegion (length (headerOf exWorld exMessage))
                      (length (trailerOf exWorld exMessage))) (writes tr))
         = contentOf exWorld exMessage"
    "healthy peerOk \<longrightarrow> err = None"
    by blast
  have "err = None" using R(5) ex_facts(4) by simp
  moreover have "list_all (\<lambda>d. int (length d) \<le> 55) (writes tr)"
    using R(3) lim by (simp add: list_all_iff)
  ultimately show ?thesis
    using con udp ex_facts(1,2,3) lim R(1,2,4) parts by (auto simp: exMessage_def)
qed

text \<open>
  C1 as stated fails on an interface whose MTU is at most 100: the limit is then not
  positive, \<^verbatim>\<open>splitParts\<close> takes its fast path and sends the whole message, which is
  longer than the limit.
\<close>

theorem udp_small_mtu_counterexample:
  "connect (isPrint exWorld) dialOk
      \<lparr>furl = furl (exForwarder 68), mtu = initializeMtu ''eth0'' (ifaceWithMtu 68), messageLimit = 0\<rparr>
      = (Inr peerOk, exForwarder 68)
   \<and> messageLimit (exForwarder 68) = 68 - 100
   \<and> splitParts (exForwarder 68) peerOk exMessage exWorld
       = Some (Returns None (exWorld\<lparr>trace := [SetWriteDeadline 2000000000, Write exLine]\<rparr>))
   \<and> \<not> int (length exLine) \<le> messageLimit (exForwarder 68)"
proof -
  have w: "writePart (exForwarder 68) peerOk (buffer exMessage) exWorld
     = (None, exWorld\<lparr>trace := trace exWorld @ [SetWriteDeadline (now exWorld + forwardConnWriteTimeout),
          Write (bytesOf exWorld (buffer exMessage))]\<rparr>)"
    using ex_facts by (simp add: writePart_healthy wfMessage_def)
  have t: "trace exWorld = []" "now exWorld = 0" by (simp_all add: exWorld_def)
  show ?thesis
    using w t ex_facts(5)
    by (simp add: connect_def exForwarder_def initializeMtu_def udpHeaderSz_def splitParts_def
        forwardConnWriteTimeout_def second_def dialOk_def ifaceWithMtu_def)
qed

text \<open>
  C10. With a positive limit that leaves no room for content the loop of
  \<^verbatim>\<open>splitParts\<close> does not terminate normally. On an interface of MTU 154 the limit is
  54, the header of the test line has 53 bytes and its trailer one: the chunk size is 0,
  every iteration sends a datagram without content and leaves the content as it was, so
  the call never returns. With MTU 153 the chunk size is \<open>-1\<close> and the first iteration
  panics on \<^verbatim>\<open>contentBuf[:availableSz]\<close>.
\<close>

theorem splitParts_no_room_for_content:
  "splitParts (exForwarder 154) peerOk exMessage exWorld = None
   \<and> panicked (splitParts (exForwarder 153) peerOk exMessage exWorld)"
proof
  have sl: "sliceTo (buffer exMessage) 53 = Inr \<lparr>base = 0, off = 0, len = 53, cap = 200\<rparr>"
    "sliceFrom (buffer exMessage) 58 = Inr \<lparr>base = 0, off = 58, len = 1, cap = 142\<rparr>"
    "sliceRange (buffer exMessage) 53 58 = Inr \<lparr>base = 0, off = 53, len = 5, cap = 147\<rparr>"
    by (simp_all add: sliceTo_def sliceFrom_def sliceRange_def exMessage_def)
  have "splitLoop (exForwarder 154) peerOk \<lparr>base = 0, off = 0, len = 53, cap = 200\<rparr>
      \<lparr>base = 0, off = 58, len = 1, cap = 142\<rparr> 0 \<lparr>base = 0, off = 53, len = 5, cap = 147\<rparr> exWorld = None"
    using ex_facts
    by (intro splitLoop_diverges) (simp_all add: wfSlice_def exWorld_def exMessage_def exLine_def)
  then show "splitParts (exForwarder 154) peerOk exMessage exWorld = None"
    using sl by (simp add: splitParts_def exForwarder_def udpHeaderSz_def Let_def)
      (simp add: exMessage_def)
  show "panicked (splitParts (exForwarder 153) peerOk exMessage exWorld)"
    by (simp add: splitParts_def exForwarder_def exMessage_def exWorld_def peerOk_def
        udpHeaderSz_def sliceTo_def sliceFrom_def sliceRange_def splitLoop.simps poolGet_def
        poolNew_def goAppend_def Let_def)
qed

subsection \<open>The civil time of a day number\<close>
























subsection \<open>Rendering\<close>

lemma appendAll_props:
  assumes "wfSlice w s" "appendAll s ds w = (s', w')"
  shows "bytesOf w' s' = bytesOf w s @ concat ds \<and> wfSlice w' s'
     \<and> pool w' = pool w \<and> trace w' = trace w \<and> now w' = now w \<and> nextAddr w \<le> nextAddr w'
     \<and> (\<forall>t. wfSlice w t \<longrightarrow> wfSlice w' t)
     \<and> (\<forall>a. a \<noteq> base s \<and> a < nextAddr w \<longrightarrow> mem w' a = mem w a \<and> base s' \<noteq> a)
     \<and> (base s' = base s \<or> nextAddr w \<le> base s') \<and> base s' < nextAddr w'"
  using assms
proof (induction ds arbitrary: s w)
  case Nil
  then show ?case by (auto simp: wfSlice_def)
next
  case (Cons d ds)
  obtain s1 w1 where a: "goAppend s d w = (s1, w1)" by (cases "goAppend s d w")
  with Cons.prems have rest: "appendAll s1 ds w1 = (s', w')" by simp
  have wf1: "wfSlice w1 s1" by (rule goAppend_wf [OF Cons.prems(1) a])
  note IH = Cons.IH [OF wf1 rest]
  note S = goAppend_same [OF a]
  have b1: "bytesOf w1 s1 = bytesOf w s @ d" by (rule goAppend_bytes [OF Cons.prems(1) a])
  have keep: "\<forall>t. wfSlice w t \<longrightarrow> wfSlice w1 t"
    using goAppend_keeps_wf [OF Cons.prems(1) a] by blast
  have fr: "\<forall>a. a \<noteq> base s \<and> a < nextAddr w \<longrightarrow> mem w1 a = mem w a \<and> base s1 \<noteq> a"
    using goAppend_frame [OF a] by blast
  have bs: "base s1 = base s \<or> base s1 = nextAddr w \<and> nextAddr w1 = Suc (nextAddr w)"
    using a by (auto simp: goAppend_def Let_def split: if_splits)
  have lt: "base s < nextAddr w" using Cons.prems(1) by (simp add: wfSlice_def)
  have 1: "bytesOf w' s' = bytesOf w s @ concat (d # ds)" using IH b1 by simp
  have 2: "pool w' = pool w" "trace w' = trace w" "now w' = now w" "nextAddr w \<le> nextAddr w'"
    using IH S by simp_all
  have 3: "\<forall>t. wfSlice w t \<longrightarrow> wfSlice w' t" using keep IH by blast
  have 4: "base s' = base s \<or> nextAddr w \<le> base s'" using IH bs S(5) by auto
  have 5: "\<forall>a. a \<noteq> base s \<and> a < nextAddr w \<longrightarrow> mem w' a = mem w a \<and> base s' \<noteq> a"
  proof (intro allI impI)
    fix a assume a: "a \<noteq> base s \<and> a < nextAddr w"
    then have "mem w1 a = mem w a" "base s1 \<noteq> a" using fr by auto
    moreover have "a < nextAddr w1" using a S(5) by simp
    ultimately show "mem w' a = mem w a \<and> base s' \<noteq> a" using IH by auto
  qed
  show ?case using 1 2 3 4 5 IH by blast
qed

lemma appendAll_append:
  "appendAll s (xs @ ys) w = (case appendAll s xs w of (s1, w1) \<Rightarrow> appendAll s1 ys w1)"
  by (induction xs arbitrary: s w) (auto split: prod.splits)

lemma pooled_build:
  assumes p: "wfPool w" and d: "distinct (map base (pool w))"
    and g: "poolGet w = (got, w0)" and a: "appendAll (got\<lparr>len := 0\<rparr>) ds w0 = (s, w')"
  shows "bytesOf w' s = concat ds" "wfSlice w' s" "wfPool w'" "distinct (map base (pool w'))"
    "owned w' (base s)" "trace w' = trace w @ [PoolGet got]" "now w' = now w"
    "nextAddr w \<le> nextAddr w'"
    "\<And>a. owned w a \<Longrightarrow> owned w' a \<and> mem w' a = mem w a \<and> a \<noteq> base s"
    "\<And>t. wfSlice w t \<Longrightarrow> wfSlice w' t"
    "\<not> owned w (base s)"
proof -
  note G = poolGet_props [OF g p]
  have wf0: "wfSlice w0 (got\<lparr>len := 0\<rparr>)" using G(1) by (simp add: wfSlice_def)
  have e0: "bytesOf w0 (got\<lparr>len := 0\<rparr>) = []" by (simp add: bytesOf_def)
  note A = appendAll_props [OF wf0 a]
  have pool0: "pool w0 = tl (pool w)" "base got \<notin> set (map base (pool w0))"
    "\<forall>t \<in> set (pool w0). base t < nextAddr w0"
    using g d G(2) by (auto simp: poolGet_def poolNew_def Let_def wfPool_def list_all_iff wfSlice_def
        split: list.splits)
  have r1: "bytesOf w' s = concat ds" using A e0 by simp
  have r2: "wfSlice w' s" using A by simp
  have r3: "wfPool w'" using G(2) A by (auto simp: wfPool_def list_all_iff)
  have r4: "distinct (map base (pool w'))" using A pool0(1) d by (simp add: distinct_tl map_tl)
  have r5: "owned w' (base s)"
  proof -
    have "base s = base got \<or> nextAddr w0 \<le> base s" using A by simp
    then have "base s \<notin> set (map base (pool w0))" using pool0(2,3) by auto
    then show ?thesis using A by (simp add: owned_def)
  qed
  have r6: "trace w' = trace w @ [PoolGet got]" using A G(3) by simp
  have r7: "now w' = now w" using A G(4) by simp
  have r8: "nextAddr w \<le> nextAddr w'" using A G(6) by simp
  have r9: "owned w' a \<and> mem w' a = mem w a \<and> a \<noteq> base s" if "owned w a" for a
  proof -
    from G(9) [OF that] have o: "owned w0 a" "base got \<noteq> a" by auto
    have "a < nextAddr w" using that by (simp add: owned_def)
    then have m0: "mem w0 a = mem w a" "a < nextAddr w0" using G(8) G(6) by auto
    then have "mem w' a = mem w0 a \<and> base s \<noteq> a" using A o(2) by auto
    moreover have "owned w' a" using o(1) A by (simp add: owned_def)
    ultimately show ?thesis using m0 that by auto
  qed
  have r10: "wfSlice w' t" if "wfSlice w t" for t using that G(7) A by blast
  show "bytesOf w' s = concat ds" by (rule r1)
  show "wfSlice w' s" by (rule r2)
  show "wfPool w'" by (rule r3)
  show "distinct (map base (pool w'))" by (rule r4)
  show "owned w' (base s)" by (rule r5)
  show "trace w' = trace w @ [PoolGet got]" by (rule r6)
  show "now w' = now w" by (rule r7)
  show "nextAddr w \<le> nextAddr w'" by (rule r8)
  show "\<And>a. owned w a \<Longrightarrow> owned w' a \<and> mem w' a = mem w a \<and> a \<noteq> base s" by (rule r9)
  show "\<And>t. wfSlice w t \<Longrightarrow> wfSlice w' t" by (rule r10)
  have "base got \<in> set (map base (pool w)) \<or> nextAddr w \<le> base got"
    using g by (auto simp: poolGet_def poolNew_def Let_def split: list.splits)
  moreover have "base s = base got \<or> nextAddr w0 \<le> base s" using A by simp
  ultimately show "\<not> owned w (base s)" using G(6) by (auto simp: owned_def)
qed

lemma take_trim: "(if length xs > n then take n xs else xs) = take n xs"
  by simp

lemma render_props:
  assumes p: "wfPool w" and d: "distinct (map base (pool w))"
    and r: "render b parts appName processName w = (m, w')"
  shows "bytesOf w' (buffer m)
      = specLine (formatStamp (syslogLocation b) (ts parts)) (syslogExtraStart b) (syslogExtraEnd b)
          parts appName processName"
    and "wfMessage w' m"
    and "headerOf w' m = ''<'' @ priority parts @ ''>'' @ formatStamp (syslogLocation b) (ts parts)
        @ '' '' @ take 12 (container parts) @ '' '' @ appName @ ''['' @ processName @ '']: ''
        @ syslogExtraStart b"
    and "contentOf w' m = content parts"
    and "trailerOf w' m = syslogExtraEnd b @ [CHR 0x0A]"
    and "wfPool w'" and "distinct (map base (pool w'))" and "owned w' (base (buffer m))"
    and "\<exists>got. trace w' = trace w @ [PoolGet got]" and "now w' = now w"
    and "nextAddr w \<le> nextAddr w'"
    and "\<And>a. owned w a \<Longrightarrow> owned w' a \<and> mem w' a = mem w a \<and> a \<noteq> base (buffer m)"
proof -
  let ?hdr = "[''<'', priority parts, ''>'', formatStamp (syslogLocation b) (ts parts),
      '' '', take containerIDTrimSize (container parts), '' '', appName, ''['', processName, '']: '',
      syslogExtraStart b]"
  let ?end = "[syslogExtraEnd b, [CHR 0x0A]]"
  obtain got w0 where g: "poolGet w = (got, w0)" by (cases "poolGet w")
  obtain b1 w1 where a1: "appendAll (got\<lparr>len := 0\<rparr>) ?hdr w0 = (b1, w1)"
    by (cases "appendAll (got\<lparr>len := 0\<rparr>) ?hdr w0")
  obtain b2 w2 where a2: "goAppend b1 (content parts) w1 = (b2, w2)"
    by (cases "goAppend b1 (content parts) w1")
  obtain b3 w3 where a3: "appendAll b2 ?end w2 = (b3, w3)" by (cases "appendAll b2 ?end w2")
  have m: "m = \<lparr>buffer = b3, headerIdx = int (len b1), contentIdx = int (len b2)\<rparr>" and w': "w' = w3"
    using r g a1 a2 a3 unfolding render_def Let_def take_trim by simp_all
  have a12: "appendAll (got\<lparr>len := 0\<rparr>) (?hdr @ [content parts]) w0 = (b2, w2)"
    using a1 a2 by (simp only: appendAll_append) simp
  have a123: "appendAll (got\<lparr>len := 0\<rparr>) ((?hdr @ [content parts]) @ ?end) w0 = (b3, w3)"
    using a12 a3 by (simp only: appendAll_append) simp
  note B1 = pooled_build [OF p d g a1]
  note B2 = pooled_build [OF p d g a12]
  note B3 = pooled_build [OF p d g a123]
  define H where "H = concat ?hdr"
  define E where "E = concat ?end"
  have l1: "len b1 = length H" using B1(1,2) length_bytesOf unfolding H_def by metis
  have l2: "len b2 = length H + length (content parts)"
    using B2(1,2) length_bytesOf [of w2 b2] unfolding H_def by simp
  have l3: "len b3 = length H + length (content parts) + length E"
    using B3(1,2) length_bytesOf [of w3 b3] unfolding H_def E_def by simp
  have bytes: "bytesOf w3 b3 = H @ content parts @ E" using B3(1) unfolding H_def E_def by simp
  have Hx: "H = ''<'' @ priority parts @ ''>'' @ formatStamp (syslogLocation b) (ts parts)
        @ '' '' @ take 12 (container parts) @ '' '' @ appName @ ''['' @ processName @ '']: ''
        @ syslogExtraStart b"
    by (simp add: H_def containerIDTrimSize_def)
  have Ex: "E = syslogExtraEnd b @ [CHR 0x0A]" by (simp add: E_def)
  show "bytesOf w' (buffer m)
      = specLine (formatStamp (syslogLocation b) (ts parts)) (syslogExtraStart b) (syslogExtraEnd b)
          parts appName processName"
    using bytes m w' unfolding Hx Ex by (simp add: specLine_def)
  show "wfMessage w' m" using B3(2) m w' l1 l2 l3 by (simp add: wfMessage_def)
  have "headerOf w' m = H" unfolding headerOf_def using bytes m w' l1 by simp
  then show "headerOf w' m = ''<'' @ priority parts @ ''>'' @ formatStamp (syslogLocation b) (ts parts)
        @ '' '' @ take 12 (container parts) @ '' '' @ appName @ ''['' @ processName @ '']: ''
        @ syslogExtraStart b"
    using Hx by simp
  show "contentOf w' m = content parts"
    unfolding contentOf_def using bytes m w' l1 l2 by simp
  have "trailerOf w' m = E" unfolding trailerOf_def using bytes m w' l1 l2 by simp
  then show "trailerOf w' m = syslogExtraEnd b @ [CHR 0x0A]" using Ex by simp
  show "wfPool w'" "distinct (map base (pool w'))" "owned w' (base (buffer m))"
    "now w' = now w" "nextAddr w \<le> nextAddr w'"
    using B3 m w' by simp_all
  show "\<exists>got. trace w' = trace w @ [PoolGet got]" using B3(6) w' by blast
  show "\<And>a. owned w a \<Longrightarrow> owned w' a \<and> mem w' a = mem w a \<and> a \<noteq> base (buffer m)"
    using B3(9) m w' by simp
qed

subsection \<open>Handing the message to the sinks\<close>

lemma errors_append [simp]: "errors (xs @ ys) = errors xs @ errors ys"
  by (induction xs rule: errors.induct) auto

text \<open>The buffer offered to channel i, and the world after making it.\<close>

lemma chBuffer_basic:
  assumes "(if int i = int n - 1 then (buffer m, w)
            else (case poolGet w of
                    (got, wa) \<Rightarrow> goAppend (got\<lparr>len := 0\<rparr>) (bytesOf wa (buffer m)) wa)) = (cb, w1)"
  shows "now w1 = now w" "\<exists>tr. trace w1 = trace w @ tr \<and> errors tr = [] \<and> writes tr = [] \<and> puts tr = []"
proof -
  show "now w1 = now w"
    using assms
    by (auto simp: poolGet_def poolNew_def goAppend_def Let_def split: if_splits prod.splits list.splits)
  show "\<exists>tr. trace w1 = trace w @ tr \<and> errors tr = [] \<and> writes tr = [] \<and> puts tr = []"
  proof (cases "int i = int n - 1")
    case True
    with assms show ?thesis by auto
  next
    case False
    obtain got wa where g: "poolGet w = (got, wa)" by (cases "poolGet w")
    have "trace wa = trace w @ [PoolGet got]"
      using g by (auto simp: poolGet_def poolNew_def Let_def split: list.splits)
    moreover have "trace w1 = trace wa" using assms False g goAppend_same(2) by auto
    ultimately show ?thesis by (intro exI [of _ "[PoolGet got]"]) simp
  qed
qed

lemma sendAll_notices:
  assumes "sendAll m n i chs timer w = (chs', timer', w')"
  shows "\<exists>tr. trace w' = trace w @ tr \<and> now w' = now w \<and> writes tr = [] \<and> puts tr = []
     \<and> (if list_ex (\<lambda>ch. \<not> canSend ch) chs \<and> timer \<le> now w
         then errors tr = [dropNotice] \<and> timer' = now w + minute
         else errors tr = [] \<and> timer' = timer)"
  using assms
proof (induction chs arbitrary: i timer w chs' timer' w')
  case Nil
  then show ?case by simp
next
  case (Cons ch chs)
  obtain cb w1 where cb: "(if int i = int n - 1 then (buffer m, w)
            else (case poolGet w of
                    (got, wa) \<Rightarrow> goAppend (got\<lparr>len := 0\<rparr>) (bytesOf wa (buffer m)) wa)) = (cb, w1)"
    by (cases "(if int i = int n - 1 then (buffer m, w)
            else (case poolGet w of
                    (got, wa) \<Rightarrow> goAppend (got\<lparr>len := 0\<rparr>) (bytesOf wa (buffer m)) wa))")
  from chBuffer_basic [OF cb] obtain tr1 where
    t1: "now w1 = now w" "trace w1 = trace w @ tr1" "errors tr1 = []" "writes tr1 = []" "puts tr1 = []"
    by blast
  have mpos: "0 < minute" by (simp add: minute_def second_def)
  show ?case
  proof (cases "canSend ch")
    case True
    then obtain ch1 where s: "trySend ch (m\<lparr>buffer := cb\<rparr>) = Some ch1" by (simp add: trySend_def)
    obtain chs2 timer2 w2 where r: "sendAll m n (Suc i) chs timer w1 = (chs2, timer2, w2)"
      by (cases "sendAll m n (Suc i) chs timer w1")
    have res: "chs' = ch1 # chs2" "timer' = timer2" "w' = w2"
      using Cons.prems cb s r by simp_all
    from Cons.IH [OF r] obtain tr where
      "trace w2 = trace w1 @ tr" "now w2 = now w1" "writes tr = []" "puts tr = []"
      "if list_ex (\<lambda>ch. \<not> canSend ch) chs \<and> timer \<le> now w1
         then errors tr = [dropNotice] \<and> timer2 = now w1 + minute
         else errors tr = [] \<and> timer2 = timer"
      by blast
    then show ?thesis using res t1 True
      by (intro exI [of _ "tr1 @ tr"]) (auto split: if_splits)
  next
    case False
    then have s: "trySend ch (m\<lparr>buffer := cb\<rparr>) = None" by (simp add: trySend_def)
    show ?thesis
    proof (cases "timer \<le> now w1")
      case True
      let ?w1 = "w1\<lparr>trace := trace w1 @ [Errorf dropNotice]\<rparr>"
      obtain chs2 timer2 w2 where
        r: "sendAll m n (Suc i) chs (now w1 + minute) ?w1 = (chs2, timer2, w2)"
        by (cases "sendAll m n (Suc i) chs (now w1 + minute) ?w1")
      have res: "chs' = ch # chs2" "timer' = timer2" "w' = w2"
        using Cons.prems cb s r True by simp_all
      from Cons.IH [OF r] obtain tr where
        "trace w2 = trace ?w1 @ tr" "now w2 = now ?w1" "writes tr = []" "puts tr = []"
        "if list_ex (\<lambda>ch. \<not> canSend ch) chs \<and> now w1 + minute \<le> now ?w1
           then errors tr = [dropNotice] \<and> timer2 = now ?w1 + minute
           else errors tr = [] \<and> timer2 = now w1 + minute"
        by blast
      then show ?thesis using res t1 False True mpos
        by (intro exI [of _ "tr1 @ [Errorf dropNotice] @ tr"]) (auto split: if_splits)
    next
      case nt: False
      obtain chs2 timer2 w2 where r: "sendAll m n (Suc i) chs timer w1 = (chs2, timer2, w2)"
        by (cases "sendAll m n (Suc i) chs timer w1")
      have res: "chs' = ch # chs2" "timer' = timer2" "w' = w2"
        using Cons.prems cb s r nt by simp_all
      from Cons.IH [OF r] obtain tr where
        "trace w2 = trace w1 @ tr" "now w2 = now w1" "writes tr = []" "puts tr = []"
        "if list_ex (\<lambda>ch. \<not> canSend ch) chs \<and> timer \<le> now w1
           then errors tr = [dropNotice] \<and> timer2 = now w1 + minute
           else errors tr = [] \<and> timer2 = timer"
        by blast
      then show ?thesis using res t1 False nt
        by (intro exI [of _ "tr1 @ tr"]) (auto split: if_splits)
    qed
  qed
qed

lemma sendAll_step:
  assumes "sendAll m n i (ch # chs) timer w = (chs', timer', w')"
  obtains cb w1 timer1 w1' chs2 where
    "(if int i = int n - 1 then (buffer m, w)
      else (case poolGet w of
              (got, wa) \<Rightarrow> goAppend (got\<lparr>len := 0\<rparr>) (bytesOf wa (buffer m)) wa)) = (cb, w1)"
    "sendAll m n (Suc i) chs timer1 w1' = (chs2, timer', w')"
    "chs' = (if canSend ch then ch\<lparr>queue := queue ch @ [m\<lparr>buffer := cb\<rparr>], receiverWaiting := False\<rparr>
             else ch) # chs2"
    "w1' = w1 \<or> w1' = w1\<lparr>trace := trace w1 @ [Errorf dropNotice]\<rparr>"
proof -
  obtain cb w1 where cb: "(if int i = int n - 1 then (buffer m, w)
            else (case poolGet w of
                    (got, wa) \<Rightarrow> goAppend (got\<lparr>len := 0\<rparr>) (bytesOf wa (buffer m)) wa)) = (cb, w1)"
    by (cases "(if int i = int n - 1 then (buffer m, w)
            else (case poolGet w of
                    (got, wa) \<Rightarrow> goAppend (got\<lparr>len := 0\<rparr>) (bytesOf wa (buffer m)) wa))")
  show ?thesis
  proof (cases "canSend ch")
    case True
    obtain chs2 timer2 w2 where r: "sendAll m n (Suc i) chs timer w1 = (chs2, timer2, w2)"
      by (cases "sendAll m n (Suc i) chs timer w1")
    with assms cb True show ?thesis by (intro that [of cb w1 timer w1 chs2]) (auto simp: trySend_def)
  next
    case False
    show ?thesis
    proof (cases "timer \<le> now w1")
      case True
      let ?w1 = "w1\<lparr>trace := trace w1 @ [Errorf dropNotice]\<rparr>"
      obtain chs2 timer2 w2 where
        r: "sendAll m n (Suc i) chs (now w1 + minute) ?w1 = (chs2, timer2, w2)"
        by (cases "sendAll m n (Suc i) chs (now w1 + minute) ?w1")
      with assms cb True False show ?thesis
        by (intro that [of cb w1 "now w1 + minute" ?w1 chs2]) (auto simp: trySend_def)
    next
      case nt: False
      obtain chs2 timer2 w2 where r: "sendAll m n (Suc i) chs timer w1 = (chs2, timer2, w2)"
        by (cases "sendAll m n (Suc i) chs timer w1")
      with assms cb nt False show ?thesis
        by (intro that [of cb w1 timer w1 chs2]) (auto simp: trySend_def)
    qed
  qed
qed

lemma sendAll_channels:
  assumes "sendAll m n i chs timer w = (chs', timer', w')"
  shows "list_all2 (\<lambda>ch ch'. if canSend ch
            then \<exists>cb. ch' = ch\<lparr>queue := queue ch @ [m\<lparr>buffer := cb\<rparr>], receiverWaiting := False\<rparr>
            else ch' = ch) chs chs'"
  using assms
proof (induction chs arbitrary: i timer w chs' timer' w')
  case Nil
  then show ?case by simp
next
  case (Cons ch chs)
  from Cons.prems obtain cb w1 timer1 w1' chs2 where
    r: "sendAll m n (Suc i) chs timer1 w1' = (chs2, timer', w')"
    and c: "chs' = (if canSend ch then ch\<lparr>queue := queue ch @ [m\<lparr>buffer := cb\<rparr>], receiverWaiting := False\<rparr>
             else ch) # chs2"
    by (rule sendAll_step)
  from Cons.IH [OF r] c show ?case by auto
qed

lemma accepted_same [simp]: "accepted ch ch = []"
  by (simp add: accepted_def)

lemma accepted_sent [simp]:
  "accepted ch (ch\<lparr>queue := queue ch @ [x], receiverWaiting := r\<rparr>) = [x]"
  by (simp add: accepted_def)

lemma sendAll_buffers:
  assumes "wfPool w" "distinct (map base (pool w))" "wfSlice w (buffer m)"
    "owned w (base (buffer m))" "sendAll m n i chs timer w = (chs', timer', w')"
  shows "wfPool w' \<and> distinct (map base (pool w')) \<and> nextAddr w \<le> nextAddr w'
    \<and> (\<forall>a. owned w a \<longrightarrow> owned w' a \<and> mem w' a = mem w a)
    \<and> list_all (\<lambda>(k, msg). i \<le> k \<and> headerIdx msg = headerIdx m \<and> contentIdx msg = contentIdx m
          \<and> wfSlice w' (buffer msg) \<and> owned w' (base (buffer msg))
          \<and> bytesOf w' (buffer msg) = bytesOf w (buffer m)
          \<and> (if int k = int n - 1 then buffer msg = buffer m
              else \<not> owned w (base (buffer msg)))) (handedOut i chs chs')
    \<and> distinct (map (\<lambda>(k, msg). base (buffer msg)) (handedOut i chs chs'))"
  using assms
proof (induction chs arbitrary: i timer w chs' timer' w')
  case Nil
  then show ?case by simp
next
  case (Cons ch chs)
  note p = Cons.prems(1) and d = Cons.prems(2) and wfm = Cons.prems(3) and om = Cons.prems(4)
  let ?a = "base (buffer m)"
  from Cons.prems(5) obtain cb w1 timer1 w1' chs2 where
    cb: "(if int i = int n - 1 then (buffer m, w)
      else (case poolGet w of
              (got, wa) \<Rightarrow> goAppend (got\<lparr>len := 0\<rparr>) (bytesOf wa (buffer m)) wa)) = (cb, w1)"
    and r: "sendAll m n (Suc i) chs timer1 w1' = (chs2, timer', w')"
    and c: "chs' = (if canSend ch then ch\<lparr>queue := queue ch @ [m\<lparr>buffer := cb\<rparr>], receiverWaiting := False\<rparr>
             else ch) # chs2"
    and w1': "w1' = w1 \<or> w1' = w1\<lparr>trace := trace w1 @ [Errorf dropNotice]\<rparr>"
    by (rule sendAll_step)
  text \<open>The world after the buffer for this channel has been made.\<close>
  have step: "wfPool w1 \<and> distinct (map base (pool w1)) \<and> nextAddr w \<le> nextAddr w1
      \<and> (\<forall>a. owned w a \<longrightarrow> owned w1 a \<and> mem w1 a = mem w a)
      \<and> wfSlice w1 cb \<and> owned w1 (base cb) \<and> bytesOf w1 cb = bytesOf w (buffer m)
      \<and> (if int i = int n - 1 then cb = buffer m else \<not> owned w (base cb) \<and> base cb \<noteq> ?a)"
  proof (cases "int i = int n - 1")
    case True
    with cb have "cb = buffer m" "w1 = w" by auto
    with True p d wfm om show ?thesis by simp
  next
    case False
    obtain got wa where g: "poolGet w = (got, wa)" by (cases "poolGet w")
    with cb False have ap: "goAppend (got\<lparr>len := 0\<rparr>) (bytesOf wa (buffer m)) wa = (cb, w1)" by simp
    then have ap': "appendAll (got\<lparr>len := 0\<rparr>) [bytesOf wa (buffer m)] wa = (cb, w1)" by simp
    note B = pooled_build [OF p d g ap']
    have "?a < nextAddr w" using om by (simp add: owned_def)
    then have "mem wa ?a = mem w ?a" using poolGet_props(8) [OF g p] by simp
    then have same: "bytesOf wa (buffer m) = bytesOf w (buffer m)" by (simp add: bytesOf_def)
    have "base cb \<noteq> ?a" using B(9) [OF om] by simp
    then show ?thesis using False B same by auto
  qed
  have inv1': "wfPool w1'" "distinct (map base (pool w1'))" "wfSlice w1' (buffer m)"
    "owned w1' ?a" "nextAddr w1' = nextAddr w1" "mem w1' = mem w1"
    "\<And>a. owned w1' a = owned w1 a"
    using w1' step om wfm wfSlice_cong [of w "buffer m" w1] by auto
  note IH = Cons.IH [OF inv1'(1,2,3,4) r]
  have frame: "\<forall>a. owned w a \<longrightarrow> owned w' a \<and> mem w' a = mem w a"
    using step IH inv1' by auto
  have nx: "nextAddr w \<le> nextAddr w'" using step IH inv1'(5) by simp
  have bm: "bytesOf w1' (buffer m) = bytesOf w (buffer m)"
    using step om inv1'(6) by (simp add: bytesOf_def)
  have rest: "list_all (\<lambda>(k, msg). i \<le> k \<and> headerIdx msg = headerIdx m \<and> contentIdx msg = contentIdx m
          \<and> wfSlice w' (buffer msg) \<and> owned w' (base (buffer msg))
          \<and> bytesOf w' (buffer msg) = bytesOf w (buffer m)
          \<and> (if int k = int n - 1 then buffer msg = buffer m
              else \<not> owned w (base (buffer msg)))) (handedOut (Suc i) chs chs2)"
    using IH bm step inv1'(7) by (auto simp: list_all_iff)
  have restk: "list_all (\<lambda>(k, msg). Suc i \<le> k
          \<and> (if int k = int n - 1 then buffer msg = buffer m
              else \<not> owned w1 (base (buffer msg)))) (handedOut (Suc i) chs chs2)"
    using IH inv1'(7) by (auto simp: list_all_iff)
  show ?case
  proof (cases "canSend ch")
    case False
    then have "handedOut i (ch # chs) chs' = handedOut (Suc i) chs chs2" using c by simp
    then show ?thesis using IH frame nx rest by simp
  next
    case True
    then have ho: "handedOut i (ch # chs) chs' = (i, m\<lparr>buffer := cb\<rparr>) # handedOut (Suc i) chs chs2"
      using c by simp
    have cbw': "wfSlice w' cb" "owned w' (base cb)" "bytesOf w' cb = bytesOf w (buffer m)"
    proof -
      have o1: "owned w1' (base cb)" using step inv1'(7) by simp
      with IH have o: "owned w' (base cb)" "mem w' (base cb) = mem w1' (base cb)" by auto
      show "owned w' (base cb)" by (rule o)
      have "wfSlice w1' cb" using step w1' by auto
      then show "wfSlice w' cb" using o(2) IH by (auto intro: wfSlice_cong)
      show "bytesOf w' cb = bytesOf w (buffer m)"
        using o(2) step inv1'(6) by (simp add: bytesOf_def)
    qed
    have head: "if int i = int n - 1 then cb = buffer m else \<not> owned w (base cb)"
      using step by (auto split: if_splits)
    have fresh: "base cb \<notin> set (map (\<lambda>(k, msg). base (buffer msg)) (handedOut (Suc i) chs chs2))"
    proof
      assume "base cb \<in> set (map (\<lambda>(k, msg). base (buffer msg)) (handedOut (Suc i) chs chs2))"
      then obtain k msg where km: "(k, msg) \<in> set (handedOut (Suc i) chs chs2)"
        "base (buffer msg) = base cb" by auto
      with restk have k: "Suc i \<le> k"
        "if int k = int n - 1 then buffer msg = buffer m else \<not> owned w1 (base (buffer msg))"
        by (auto simp: list_all_iff)
      show False
      proof (cases "int k = int n - 1")
        case True
        with k have "buffer msg = buffer m" "int i \<noteq> int n - 1" by auto
        with km(2) step show False by auto
      next
        case False
        with k km(2) step show False by auto
      qed
    qed
    show ?thesis using ho IH frame nx rest cbw' head fresh by simp
  qed
qed


lemma handedOut_channels:
  assumes "list_all2 (\<lambda>ch ch'. if canSend ch
            then \<exists>cb. ch' = ch\<lparr>queue := queue ch @ [m\<lparr>buffer := cb\<rparr>], receiverWaiting := False\<rparr>
            else ch' = ch) chs chs'"
  shows "list_all2 (\<lambda>ch ch'. (canSend ch \<and> length (accepted ch ch') = 1
              \<and> ch' = ch\<lparr>queue := queue ch @ accepted ch ch', receiverWaiting := False\<rparr>)
            \<or> (\<not> canSend ch \<and> ch' = ch)) chs chs'"
  using assms by (rule list_all2_mono) (auto split: if_splits)














subsection \<open>Dropped messages\<close>

lemma appendAll_same:
  "appendAll s ds w = (s', w') \<Longrightarrow> trace w' = trace w \<and> now w' = now w"
proof (induction ds arbitrary: s w)
  case Nil
  then show ?case by simp
next
  case (Cons d ds)
  obtain s1 w1 where a: "goAppend s d w = (s1, w1)" by (cases "goAppend s d w")
  with Cons.prems have "appendAll s1 ds w1 = (s', w')" by simp
  from Cons.IH [OF this] goAppend_same [OF a] show ?case by simp
qed

lemma render_trace:
  assumes "render b parts appName processName w = (m, w1)"
  shows "now w1 = now w" "\<exists>got. trace w1 = trace w @ [PoolGet got]"
proof -
  obtain got w0 where g: "poolGet w = (got, w0)" by (cases "poolGet w")
  have g': "trace w0 = trace w @ [PoolGet got]" "now w0 = now w"
    using g by (auto simp: poolGet_def poolNew_def Let_def split: list.splits)
  obtain b1 wa where a1: "appendAll (got\<lparr>len := 0\<rparr>)
      [''<'', priority parts, ''>'', formatStamp (syslogLocation b) (ts parts), '' '',
       if containerIDTrimSize < length (container parts)
       then take containerIDTrimSize (container parts) else container parts,
       '' '', appName, ''['', processName, '']: '', syslogExtraStart b] w0 = (b1, wa)"
    by (cases "appendAll (got\<lparr>len := 0\<rparr>)
      [''<'', priority parts, ''>'', formatStamp (syslogLocation b) (ts parts), '' '',
       if containerIDTrimSize < length (container parts)
       then take containerIDTrimSize (container parts) else container parts,
       '' '', appName, ''['', processName, '']: '', syslogExtraStart b] w0")
  obtain b2 wb where a2: "goAppend b1 (content parts) wa = (b2, wb)"
    by (cases "goAppend b1 (content parts) wa")
  obtain b3 wc where a3: "appendAll b2 [syslogExtraEnd b, [CHR 0x0A]] wb = (b3, wc)"
    by (cases "appendAll b2 [syslogExtraEnd b, [CHR 0x0A]] wb")
  have "w1 = wc" using assms g a1 a2 a3 unfolding render_def Let_def by simp
  then have "trace w1 = trace w0 \<and> now w1 = now w0"
    using appendAll_same [OF a1] goAppend_same [OF a2] appendAll_same [OF a3] by simp
  then show "now w1 = now w" "\<exists>got. trace w1 = trace w @ [PoolGet got]" using g' by auto
qed

lemma sendMessage_notices:
  assumes "sendMessage b parts appName processName containerName w = (b', w')"
  shows "\<exists>tr. trace w' = trace w @ tr \<and> now w' = now w \<and> writes tr = [] \<and> puts tr = []
     \<and> (if list_ex (\<lambda>ch. \<not> canSend ch) (msgChans b) \<and> nextNotify b \<le> now w
         then errors tr = [dropNotice] \<and> nextNotify b' = now w + minute
         else errors tr = [] \<and> nextNotify b' = nextNotify b)"
proof (cases "msgChans b = []")
  case True
  with assms have "b' = b" "w' = w" by (auto simp: sendMessage_def)
  with True show ?thesis by simp
next
  case False
  obtain m w1 where r: "render b parts appName processName w = (m, w1)"
    by (cases "render b parts appName processName w")
  obtain chs timer w2 where sa: "sendAll m (length (msgChans b)) 0 (msgChans b) (nextNotify b) w1 = (chs, timer, w2)"
    by (cases "sendAll m (length (msgChans b)) 0 (msgChans b) (nextNotify b) w1")
  have res: "nextNotify b' = timer" "w' = w2"
    using assms r sa False by (auto simp: sendMessage_def Let_def)
  from render_trace [OF r] obtain got where t1: "now w1 = now w" "trace w1 = trace w @ [PoolGet got]"
    by blast
  from sendAll_notices [OF sa] obtain tr where
    "trace w2 = trace w1 @ tr" "now w2 = now w1" "writes tr = []" "puts tr = []"
    "if list_ex (\<lambda>ch. \<not> canSend ch) (msgChans b) \<and> nextNotify b \<le> now w1
       then errors tr = [dropNotice] \<and> timer = now w1 + minute
       else errors tr = [] \<and> timer = nextNotify b"
    by blast
  then show ?thesis using res t1
    by (intro exI [of _ "[PoolGet got] @ tr"]) (auto split: if_splits)
qed

lemma noticeTimes_spaced: "spaced minute (nextNotify b) (noticeTimes b w sends)"
proof (induction sends arbitrary: b w)
  case Nil
  then show ?case by simp
next
  case (Cons s sends)
  obtain t workers parts appName processName where s: "s = (t, workers, parts, appName, processName)"
    by (cases s)
  let ?b = "b\<lparr>msgChans := workers (msgChans b)\<rparr>" and ?w = "w\<lparr>now := t\<rparr>"
  obtain b' w' where r: "sendMessage ?b parts appName processName [] ?w = (b', w')"
    by (cases "sendMessage ?b parts appName processName [] ?w")
  from sendMessage_notices [OF r] obtain tr where
    tr: "trace w' = trace w @ tr"
    "if list_ex (\<lambda>ch. \<not> canSend ch) (msgChans ?b) \<and> nextNotify b \<le> t
       then errors tr = [dropNotice] \<and> nextNotify b' = t + minute
       else errors tr = [] \<and> nextNotify b' = nextNotify b"
    by auto
  show ?case
  proof (cases "list_ex (\<lambda>ch. \<not> canSend ch) (msgChans ?b) \<and> nextNotify b \<le> t")
    case True
    with tr have "errors tr = [dropNotice]" "nextNotify b' = t + minute" by auto
    with True tr(1) r s Cons.IH [of b' w'] show ?thesis by simp
  next
    case False
    with tr have "errors tr = []" "nextNotify b' = nextNotify b" by auto
    with tr(1) r s Cons.IH [of b' w'] show ?thesis by simp
  qed
qed

lemma sendMessage_channels:
  assumes s: "sendMessage b parts appName processName containerName w = (b', w')"
  shows "list_all2 (\<lambda>ch ch'. (canSend ch \<and> length (accepted ch ch') = 1
              \<and> ch' = ch\<lparr>queue := queue ch @ accepted ch ch', receiverWaiting := False\<rparr>)
            \<or> (\<not> canSend ch \<and> ch' = ch)) (msgChans b) (msgChans b')"
proof (cases "msgChans b = []")
  case True
  with s have "b' = b" by (auto simp: sendMessage_def)
  with True show ?thesis by simp
next
  case False
  obtain m w1 where r: "render b parts appName processName w = (m, w1)"
    by (cases "render b parts appName processName w")
  obtain chs timer w2 where sa: "sendAll m (length (msgChans b)) 0 (msgChans b) (nextNotify b) w1 = (chs, timer, w2)"
    by (cases "sendAll m (length (msgChans b)) 0 (msgChans b) (nextNotify b) w1")
  have "msgChans b' = chs" using s r sa False by (auto simp: sendMessage_def Let_def)
  then show ?thesis using handedOut_channels [OF sendAll_channels [OF sa]] by simp
qed

lemma stuck_send:
  assumes ne: "msgChans b \<noteq> []" and st: "list_all (\<lambda>ch. \<not> canSend ch) (msgChans b)"
    and s: "sendMessage b parts appName processName containerName w = (b', w')"
  shows "msgChans b' = msgChans b"
    and "if nextNotify b \<le> now w
         then errors (trace w') = errors (trace w) @ [dropNotice] \<and> nextNotify b' = now w + minute
         else errors (trace w') = errors (trace w) \<and> nextNotify b' = nextNotify b"
proof -
  from sendMessage_channels [OF s]
  have l: "list_all2 (\<lambda>ch ch'. (canSend ch \<and> length (accepted ch ch') = 1
              \<and> ch' = ch\<lparr>queue := queue ch @ accepted ch ch', receiverWaiting := False\<rparr>)
            \<or> (\<not> canSend ch \<and> ch' = ch)) (msgChans b) (msgChans b')" .
  from l st show "msgChans b' = msgChans b"
    by (induction rule: list_all2_induct) auto
  have ex: "list_ex (\<lambda>ch. \<not> canSend ch) (msgChans b)"
    using ne st by (cases "msgChans b") auto
  from sendMessage_notices [OF s] ex
  show "if nextNotify b \<le> now w
         then errors (trace w') = errors (trace w) @ [dropNotice] \<and> nextNotify b' = now w + minute
         else errors (trace w') = errors (trace w) \<and> nextNotify b' = nextNotify b"
    by (auto split: if_splits)
qed

lemma stuck_run:
  assumes "msgChans b \<noteq> []" "list_all (\<lambda>ch. \<not> canSend ch) (msgChans b)"
  shows "noticeTimes b w (map exSend instants) = stuckNotices (nextNotify b) instants
    \<and> errors (trace (snd (sendMany b w (map exSend instants))))
        = errors (trace w) @ replicate (length (stuckNotices (nextNotify b) instants)) dropNotice
    \<and> msgChans (fst (sendMany b w (map exSend instants))) = msgChans b"
  using assms
proof (induction instants arbitrary: b w)
  case Nil
  then show ?case by simp
next
  case (Cons t instants)
  let ?w = "w\<lparr>now := t\<rparr>"
  have b: "b\<lparr>msgChans := idle (msgChans b)\<rparr> = b" by (simp add: idle_def)
  obtain b' w' where r: "sendMessage b exParts ''coolappname'' ''procx'' [] ?w = (b', w')"
    by (cases "sendMessage b exParts ''coolappname'' ''procx'' [] ?w")
  note S = stuck_send [OF Cons.prems r]
  have st': "msgChans b' \<noteq> []" "list_all (\<lambda>ch. \<not> canSend ch) (msgChans b')"
    using S(1) Cons.prems by simp_all
  note IH = Cons.IH [OF st', of w']
  show ?case
  proof (cases "nextNotify b \<le> t")
    case True
    with S(2) have e: "errors (trace w') = errors (trace w) @ [dropNotice]"
      "nextNotify b' = t + minute" by simp_all
    with IH S(1) r b True show ?thesis
      by (simp add: exSend_def replicate_app_Cons_same)
  next
    case False
    with S(2) have e: "errors (trace w') = errors (trace w)" "nextNotify b' = nextNotify b"
      by simp_all
    with IH S(1) r b False show ?thesis by (simp add: exSend_def)
  qed
qed

text \<open>
  C3 (amended). A call of \<^verbatim>\<open>sendMessage\<close> never waits for a channel: a channel with room
  gets the message and a full one is left as it was, the message being dropped. The call
  logs at most one line, the fixed text \<^verbatim>\<open>Dropping log messages to syslog due to full
  channel buffer.\<close>, and it does so exactly when some channel was full and the backend's
  one timer had fired; the timer is then set a minute ahead. Over any run of calls the
  instants of the calls that logged a drop are therefore at least a minute apart, for all
  sinks together. The line carries no count.
\<close>

theorem drops_logged_once_a_minute:
  "spaced minute (nextNotify b) (noticeTimes b w sends)
   \<and> (sendMessage b parts appName processName containerName w = (b', w') \<longrightarrow>
        list_all2 (\<lambda>ch ch'. (canSend ch \<and> length (accepted ch ch') = 1
              \<and> ch' = ch\<lparr>queue := queue ch @ accepted ch ch', receiverWaiting := False\<rparr>)
            \<or> (\<not> canSend ch \<and> ch' = ch)) (msgChans b) (msgChans b')
        \<and> (\<exists>tr. trace w' = trace w @ tr
             \<and> (if list_ex (\<lambda>ch. \<not> canSend ch) (msgChans b) \<and> nextNotify b \<le> now w
                 then errors tr = [''Dropping log messages to syslog due to full channel buffer.'']
                      \<and> nextNotify b' = now w + minute
                 else errors tr = [] \<and> nextNotify b' = nextNotify b)))"
proof (intro conjI impI)
  show "spaced minute (nextNotify b) (noticeTimes b w sends)" by (rule noticeTimes_spaced)
next
  assume s: "sendMessage b parts appName processName containerName w = (b', w')"
  show "list_all2 (\<lambda>ch ch'. (canSend ch \<and> length (accepted ch ch') = 1
              \<and> ch' = ch\<lparr>queue := queue ch @ accepted ch ch', receiverWaiting := False\<rparr>)
            \<or> (\<not> canSend ch \<and> ch' = ch)) (msgChans b) (msgChans b')"
    by (rule sendMessage_channels [OF s])
  from sendMessage_notices [OF s]
  show "\<exists>tr. trace w' = trace w @ tr
             \<and> (if list_ex (\<lambda>ch. \<not> canSend ch) (msgChans b) \<and> nextNotify b \<le> now w
                 then errors tr = [''Dropping log messages to syslog due to full channel buffer.'']
                      \<and> nextNotify b' = now w + minute
                 else errors tr = [] \<and> nextNotify b' = nextNotify b)"
    unfolding dropNotice_def by blast
qed


theorem drops_logged_once_a_minute_witness:
  "noticeTimes (exBackend grenada [exChan 0]) emptyWorld runFour = [0, 61000000000]
   \<and> spaced minute 0 [0, 61000000000]
   \<and> errors (trace (snd (sendMessage (exBackend grenada [exChan 0]) exParts ''coolappname'' ''procx'' []
          emptyWorld)))
       = [''Dropping log messages to syslog due to full channel buffer.'']
   \<and> nextNotify (fst (sendMessage (exBackend grenada [exChan 0]) exParts ''coolappname'' ''procx'' []
          emptyWorld)) = 60000000000
   \<and> msgChans (fst (sendMessage (exBackend grenada [exChan 0]) exParts ''coolappname'' ''procx'' []
          emptyWorld)) = [exChan 0]"
proof -
  let ?B = "exBackend grenada [exChan 0]"
  let ?r = "sendMessage ?B exParts ''coolappname'' ''procx'' [] emptyWorld"
  have B: "msgChans ?B = [exChan 0]" "nextNotify ?B = 0" "\<not> canSend (exChan 0)"
    by (simp_all add: exBackend_def exChan_def canSend_def)
  have W: "now emptyWorld = 0" "trace emptyWorld = []" by (simp_all add: emptyWorld_def)
  have st: "msgChans ?B \<noteq> []" "list_all (\<lambda>ch. \<not> canSend ch) (msgChans ?B)" using B by simp_all
  have nt: "noticeTimes ?B emptyWorld runFour = [0, 61000000000]"
    using stuck_run [OF st, of emptyWorld "[0, 1 * second, 2 * second, 61 * second]"] B(2)
    by (simp add: runFour_def minute_def second_def)
  note T = drops_logged_once_a_minute [of ?B emptyWorld runFour exParts "''coolappname''" "''procx''"
      "[]" "fst ?r" "snd ?r"]
  from T nt B(2) have sp: "spaced minute 0 [0, 61000000000]" by simp
  from T B W have "errors (trace (snd ?r)) = [''Dropping log messages to syslog due to full channel buffer.'']"
    "nextNotify (fst ?r) = 60000000000" "msgChans (fst ?r) = [exChan 0]"
    by (auto simp: minute_def second_def list_all2_Cons1)
  with nt sp show ?thesis by simp
qed

text \<open>
  C3 as stated fails in its count of drops: against one sink that takes nothing, a run
  of two records and a run of four, both with notices at 0 s and at 61 s, drop two and
  four records and leave the same two lines in the log.
\<close>

theorem drop_notice_without_count_counterexample:
  "errors (trace (snd (sendMany (exBackend grenada [exChan 0]) emptyWorld runTwo)))
     = [''Dropping log messages to syslog due to full channel buffer.'',
        ''Dropping log messages to syslog due to full channel buffer.'']
   \<and> errors (trace (snd (sendMany (exBackend grenada [exChan 0]) emptyWorld runFour)))
     = [''Dropping log messages to syslog due to full channel buffer.'',
        ''Dropping log messages to syslog due to full channel buffer.'']
   \<and> map queue (msgChans (fst (sendMany (exBackend grenada [exChan 0]) emptyWorld runTwo))) = [[]]
   \<and> map queue (msgChans (fst (sendMany (exBackend grenada [exChan 0]) emptyWorld runFour))) = [[]]
   \<and> length runTwo = 2 \<and> length runFour = 4"
proof -
  let ?B = "exBackend grenada [exChan 0]"
  have B: "msgChans ?B = [exChan 0]" "nextNotify ?B = 0" "\<not> canSend (exChan 0)"
    "queue (exChan 0) = []"
    by (simp_all add: exBackend_def exChan_def canSend_def)
  have st: "msgChans ?B \<noteq> []" "list_all (\<lambda>ch. \<not> canSend ch) (msgChans ?B)" using B by simp_all
  have W: "trace emptyWorld = []" by (simp add: emptyWorld_def)
  show ?thesis
    using stuck_run [OF st, of emptyWorld "[0, 61 * second]"]
      stuck_run [OF st, of emptyWorld "[0, 1 * second, 2 * second, 61 * second]"] B W
    by (simp add: runTwo_def runFour_def minute_def second_def dropNotice_def)
qed

subsection \<open>Who owns a buffer\<close>

lemma sliceFrom_shape: "sliceFrom s n = Inr r \<Longrightarrow> base r = base s"
  by (auto simp: sliceFrom_def sliceRange_def split: if_splits)

lemma sliceRange_shape: "sliceRange s i j = Inr r \<Longrightarrow> base r = base s"
  by (auto simp: sliceRange_def split: if_splits)

lemma writePart_puts:
  assumes "writePart f c buf w = (err, w')"
  shows "\<exists>tr. w' = w\<lparr>trace := trace w @ tr\<rparr> \<and> puts tr = []"
  using writePart_world [OF assms] by auto

lemma splitLoop_puts:
  assumes ret: "splitLoop f c hB tB avail cB w = Some (Returns r w')"
    and inv: "wfPool w" "owned w (base hB)" "base tB = base hB" "base cB = base hB"
  shows "\<exists>tr. trace w' = trace w @ tr \<and> list_all (\<lambda>s. base s \<noteq> base hB) (puts tr)
      \<and> wfPool w' \<and> owned w' (base hB) \<and> base (snd r) = base hB"
proof -
  define Q where "Q = (\<lambda>(f::syslogForwarder) (c::conn) (hB::slice) (tB::slice) (avail::int)
      (cB::slice) (w::world) (y::(string option \<times> slice) result).
      wfPool w \<and> owned w (base hB) \<and> base tB = base hB \<and> base cB = base hB \<longrightarrow>
      (case y of Panics p w' \<Rightarrow> True
       | Returns r w' \<Rightarrow>
          (\<exists>tr. trace w' = trace w @ tr \<and> list_all (\<lambda>s. base s \<noteq> base hB) (puts tr)
              \<and> wfPool w' \<and> owned w' (base hB) \<and> base (snd r) = base hB)))"
  have "Q f c hB tB avail cB w (Returns r w')"
  proof (rule splitLoop.raw_induct [where P = Q, OF _ ret], goal_cases)
    case (1 loop f c hB tB avail cB w y)
    note IH = 1(1) and unf = 1(2)
    show ?case unfolding Q_def
    proof
      assume inv: "wfPool w \<and> owned w (base hB) \<and> base tB = base hB \<and> base cB = base hB"
      let ?a = "base hB"
      let ?goal = "case y of Panics p w' \<Rightarrow> True
       | Returns r w' \<Rightarrow>
          (\<exists>tr. trace w' = trace w @ tr \<and> list_all (\<lambda>s. base s \<noteq> base hB) (puts tr)
              \<and> wfPool w' \<and> owned w' (base hB) \<and> base (snd r) = base hB)"
      show ?goal
      proof (cases "avail < int (len cB)")
        case False
        with unf have "y = Returns (None, cB) w" by simp
        with inv show ?thesis by simp
      next
        case True
        obtain got w1 where g: "poolGet w = (got, w1)" by (cases "poolGet w")
        obtain b1 w2 where a1: "goAppend (got\<lparr>len := 0\<rparr>) (bytesOf w1 hB) w1 = (b1, w2)"
          by (cases "goAppend (got\<lparr>len := 0\<rparr>) (bytesOf w1 hB) w1")
        show ?thesis
        proof (cases "sliceTo cB avail")
          case (Inl p)
          with unf True g a1 have "y = Panics p w2" by simp
          then show ?thesis by simp
        next
          case (Inr ch)
          then have bch: "base ch = ?a" using sliceTo_shape [OF Inr] inv by simp
          obtain b2 w3 where a2: "goAppend b1 (bytesOf w2 ch) w2 = (b2, w3)"
            by (cases "goAppend b1 (bytesOf w2 ch) w2")
          obtain b3 w4 where a3: "goAppend b2 (bytesOf w3 tB) w3 = (b3, w4)"
            by (cases "goAppend b2 (bytesOf w3 tB) w3")
          obtain err w5 where wp: "writePart f c b3 w4 = (err, w5)"
            by (cases "writePart f c b3 w4")
          define w6 where "w6 = poolPut b3 w5"
          have p: "wfPool w" and o: "owned w ?a" and bt: "base tB = ?a" using inv by auto
          note FB = fragment_build [OF p o refl bt bch g a1 a2 a3]
          from writePart_puts [OF wp] obtain tr5 where
            w5: "w5 = w4\<lparr>trace := trace w4 @ tr5\<rparr>" "puts tr5 = []" by blast
          have w6_props: "wfPool w6" "owned w6 ?a"
            "trace w6 = trace w @ [PoolGet got] @ tr5 @ [PoolPut b3]"
            using FB by (simp_all add: w6_def w5 poolPut_props)
          have unf2: "(if err \<noteq> None then Some (Returns (err, cB) w6)
              else (case sliceFrom cB avail of Inl p \<Rightarrow> Some (Panics p w6)
                    | Inr rest \<Rightarrow> loop f c hB tB avail rest w6)) = Some y"
            using unf True g a1 Inr a2 a3 wp unfolding w6_def by (simp add: Let_def)
          show ?thesis
          proof (cases "err = None")
            case False
            with unf2 have "y = Returns (err, cB) w6" by simp
            then show ?thesis using w6_props w5(2) FB(3) inv
              by (auto intro!: exI [of _ "[PoolGet got] @ tr5 @ [PoolPut b3]"])
          next
            case True
            show ?thesis
            proof (cases "sliceFrom cB avail")
              case (Inl p)
              with unf2 True have "y = Panics p w6" by simp
              then show ?thesis by simp
            next
              case (Inr rest)
              with unf2 True have body: "loop f c hB tB avail rest w6 = Some y" by simp
              have "base rest = ?a" using sliceFrom_shape [OF Inr] inv by simp
              with IH [OF body] w6_props bt
              have q: "case y of Panics p w' \<Rightarrow> True
                 | Returns r w' \<Rightarrow>
                   (\<exists>tr. trace w' = trace w6 @ tr \<and> list_all (\<lambda>s. base s \<noteq> base hB) (puts tr)
                     \<and> wfPool w' \<and> owned w' (base hB) \<and> base (snd r) = base hB)"
                by (simp add: Q_def)
              show ?thesis
              proof (cases y)
                case (Panics p w')
                then show ?thesis by simp
              next
                case (Returns r w')
                with q obtain tr where "trace w' = trace w6 @ tr"
                  "list_all (\<lambda>s. base s \<noteq> base hB) (puts tr)"
                  "wfPool w'" "owned w' (base hB)" "base (snd r) = base hB" by auto
                then show ?thesis using Returns w6_props(3) w5(2) FB(3)
                  by (auto intro!: exI [of _ "[PoolGet got] @ tr5 @ [PoolPut b3] @ tr"])
              qed
            qed
          qed
        qed
      qed
    qed
  qed
  then show ?thesis using inv by (simp add: Q_def)
qed

lemma splitParts_puts:
  assumes ret: "splitParts f c m w = Some (Returns err w')"
    and p: "wfPool w" and o: "owned w (base (buffer m))"
  shows "\<exists>tr. trace w' = trace w @ tr \<and> list_all (\<lambda>s. base s \<noteq> base (buffer m)) (puts tr)"
proof (cases "messageLimit f \<le> 0 \<or> int (len (buffer m)) \<le> messageLimit f")
  case True
  obtain e w1 where wp: "writePart f c (buffer m) w = (e, w1)" by (cases "writePart f c (buffer m) w")
  with ret True have "w' = w1" by (simp add: splitParts_def Let_def)
  with writePart_puts [OF wp] show ?thesis by auto
next
  case False
  let ?a = "base (buffer m)"
  from ret False obtain hB where hB: "sliceTo (buffer m) (headerIdx m) = Inr hB"
    by (cases "sliceTo (buffer m) (headerIdx m)") (auto simp: splitParts_def Let_def)
  from ret False hB obtain tB where tB: "sliceFrom (buffer m) (contentIdx m) = Inr tB"
    by (cases "sliceFrom (buffer m) (contentIdx m)") (auto simp: splitParts_def Let_def)
  from ret False hB tB obtain cB where cB: "sliceRange (buffer m) (headerIdx m) (contentIdx m) = Inr cB"
    by (cases "sliceRange (buffer m) (headerIdx m) (contentIdx m)") (auto simp: splitParts_def Let_def)
  define avail where "avail = messageLimit f - (int (len hB) + int (len tB))"
  have bases: "base hB = ?a" "base tB = ?a" "base cB = ?a"
    using sliceTo_shape [OF hB] sliceFrom_shape [OF tB] sliceRange_shape [OF cB] by simp_all
  have unf: "(case splitLoop f c hB tB avail cB w of
           None \<Rightarrow> None
         | Some (Panics p w') \<Rightarrow> Some (Panics p w')
         | Some (Returns (Some err, contentBuf) w') \<Rightarrow> Some (Returns (Some err) w')
         | Some (Returns (None, contentBuf) w') \<Rightarrow>
             if int (len contentBuf) > 0 then
               (case goAppend hB (bytesOf w' contentBuf) w' of (buffer1, w1) \<Rightarrow>
                (case goAppend buffer1 (bytesOf w1 tB) w1 of (buffer2, w2) \<Rightarrow>
                 (case writePart f c buffer2 w2 of (err, w3) \<Rightarrow> Some (Returns err w3))))
             else Some (Returns None w')) = Some (Returns err w')"
    using ret False hB tB cB by (simp add: splitParts_def Let_def avail_def)
  then obtain r w1 where L: "splitLoop f c hB tB avail cB w = Some (Returns r w1)"
    by (cases "splitLoop f c hB tB avail cB w") (auto split: result.splits)
  obtain e cB' where r: "r = (e, cB')" by (cases r)
  from splitLoop_puts [OF L p] o bases obtain tr1 where
    T: "trace w1 = trace w @ tr1" "list_all (\<lambda>s. base s \<noteq> ?a) (puts tr1)"
    by auto
  show ?thesis
  proof (cases "e = None \<and> 0 < int (len cB')")
    case False
    with unf L r have "w' = w1" by (auto split: option.splits if_splits)
    with T show ?thesis by blast
  next
    case True
    obtain b1 w2 where a1: "goAppend hB (bytesOf w1 cB') w1 = (b1, w2)"
      by (cases "goAppend hB (bytesOf w1 cB') w1")
    obtain b2 w3 where a2: "goAppend b1 (bytesOf w2 tB) w2 = (b2, w3)"
      by (cases "goAppend b1 (bytesOf w2 tB) w2")
    obtain e3 w4 where wp: "writePart f c b2 w3 = (e3, w4)" by (cases "writePart f c b2 w3")
    from unf L r True a1 a2 wp have "w' = w4" by simp
    moreover from writePart_puts [OF wp] obtain tr where
      "w4 = w3\<lparr>trace := trace w3 @ tr\<rparr>" "puts tr = []" by blast
    moreover have "trace w3 = trace w1" using goAppend_same [OF a1] goAppend_same [OF a2] by simp
    ultimately show ?thesis using T by (auto intro!: exI [of _ "tr1 @ tr"])
  qed
qed

lemma process_puts:
  assumes ret: "process f c m w = Some (Returns err w')"
    and p: "wfPool w" and o: "owned w (base (buffer m))"
  shows "\<exists>tr. trace w' = trace w @ tr @ [PoolPut (buffer m)]
      \<and> list_all (\<lambda>s. base s \<noteq> base (buffer m)) (puts tr)"
proof -
  from ret obtain w1 where sp: "splitParts f c m w = Some (Returns err w1)"
    and w': "w' = poolPut (buffer m) w1"
    by (auto simp: process_def split: option.splits result.splits)
  from splitParts_puts [OF sp p o] obtain tr where
    "trace w1 = trace w @ tr" "list_all (\<lambda>s. base s \<noteq> base (buffer m)) (puts tr)" by blast
  then show ?thesis using w' by (auto simp: poolPut_props)
qed

lemma sendMessage_buffers:
  assumes p: "wfPool w" and d: "distinct (map base (pool w))" and ne: "msgChans b \<noteq> []"
    and r: "render b parts appName processName w = (m, w1)"
    and s: "sendMessage b parts appName processName containerName w = (b', w')"
  shows "list_all (\<lambda>(k, msg).
            (if k = length (msgChans b) - 1 then buffer msg = buffer m
             else base (buffer msg) \<noteq> base (buffer m) \<and> \<not> owned w1 (base (buffer msg)))
            \<and> bytesOf w' (buffer msg) = bytesOf w1 (buffer m)
            \<and> wfMessage w' msg \<and> owned w' (base (buffer msg)))
          (handedOut 0 (msgChans b) (msgChans b'))"
    and "distinct (map (\<lambda>(k, msg). base (buffer msg)) (handedOut 0 (msgChans b) (msgChans b')))"
    and "wfPool w'" and "distinct (map base (pool w'))"
proof -
  obtain chs timer w2 where sa: "sendAll m (length (msgChans b)) 0 (msgChans b) (nextNotify b) w1 = (chs, timer, w2)"
    by (cases "sendAll m (length (msgChans b)) 0 (msgChans b) (nextNotify b) w1")
  have res: "msgChans b' = chs" "w' = w2"
    using s r sa ne by (auto simp: sendMessage_def Let_def)
  note R = render_props [OF p d r]
  have wfm: "wfSlice w1 (buffer m)" using R(2) by (simp add: wfMessage_def)
  note B = sendAll_buffers [OF R(6,7) wfm R(8) sa]
  have n: "0 < length (msgChans b)" using ne by simp
  show "wfPool w'" "distinct (map base (pool w'))" using B res by simp_all
  show "distinct (map (\<lambda>(k, msg). base (buffer msg)) (handedOut 0 (msgChans b) (msgChans b')))"
    using B res by simp
  show "list_all (\<lambda>(k, msg).
            (if k = length (msgChans b) - 1 then buffer msg = buffer m
             else base (buffer msg) \<noteq> base (buffer m) \<and> \<not> owned w1 (base (buffer msg)))
            \<and> bytesOf w' (buffer msg) = bytesOf w1 (buffer m)
            \<and> wfMessage w' msg \<and> owned w' (base (buffer msg)))
          (handedOut 0 (msgChans b) (msgChans b'))"
    unfolding list_all_iff res
  proof (intro ballI, clarify)
    fix k msg assume "(k, msg) \<in> set (handedOut 0 (msgChans b) chs)"
    with B have f: "headerIdx msg = headerIdx m" "contentIdx msg = contentIdx m"
      "wfSlice w2 (buffer msg)" "owned w2 (base (buffer msg))"
      "bytesOf w2 (buffer msg) = bytesOf w1 (buffer m)"
      "if int k = int (length (msgChans b)) - 1 then buffer msg = buffer m
       else \<not> owned w1 (base (buffer msg))"
      by (auto simp: list_all_iff)
    have "len (buffer msg) = len (buffer m)" using f(3,5) wfm length_bytesOf by metis
    then have wf: "wfMessage w2 msg" using f R(2) by (simp add: wfMessage_def)
    have idx: "(int k = int (length (msgChans b)) - 1) = (k = length (msgChans b) - 1)"
      using n by linarith
    have "(if k = length (msgChans b) - 1 then buffer msg = buffer m
             else base (buffer msg) \<noteq> base (buffer m) \<and> \<not> owned w1 (base (buffer msg)))"
      using f(6) idx R(8) by (auto split: if_splits)
    then show "(if k = length (msgChans b) - 1 then buffer msg = buffer m
             else base (buffer msg) \<noteq> base (buffer m) \<and> \<not> owned w1 (base (buffer msg)))
            \<and> bytesOf w2 (buffer msg) = bytesOf w1 (buffer m)
            \<and> wfMessage w2 msg \<and> owned w2 (base (buffer msg))"
      using f wf by simp
  qed
qed

lemma process_no_room:
  "panicked (process (exForwarder 153) peerOk exMessage exWorld)"
  "puts (traceOf (process (exForwarder 153) peerOk exMessage exWorld)) = []"
  by (simp_all add: process_def splitParts_def exForwarder_def exMessage_def exWorld_def peerOk_def
        udpHeaderSz_def sliceTo_def sliceFrom_def sliceRange_def splitLoop.simps poolGet_def
        poolNew_def goAppend_def Let_def)

lemma handedOut_indices:
  assumes "list_all2 (\<lambda>ch ch'. (canSend ch \<and> length (accepted ch ch') = 1
              \<and> ch' = ch\<lparr>queue := queue ch @ accepted ch ch', receiverWaiting := False\<rparr>)
            \<or> (\<not> canSend ch \<and> ch' = ch)) chs chs'"
  shows "map fst (handedOut i chs chs') = map ((+) i) (filter (\<lambda>j. canSend (chs ! j)) [0..<length chs])"
  using assms
proof (induction arbitrary: i rule: list_all2_induct)
  case Nil
  show ?case by simp
next
  case (Cons ch chs ch' chs')
  have up: "[0..<length (ch # chs)] = 0 # map Suc [0..<length chs]"
    by (simp add: upt_conv_Cons map_Suc_upt del: upt_Suc)
  have f: "filter (\<lambda>j. canSend ((ch # chs) ! j)) (map Suc [0..<length chs])
      = map Suc (filter (\<lambda>j. canSend (chs ! j)) [0..<length chs])"
    by (simp add: filter_map comp_def)
  have hd: "map fst (map (Pair i) (accepted ch ch')) = (if canSend ch then [i] else [])"
  proof (cases "canSend ch")
    case True
    with Cons.hyps(1) have "length (accepted ch ch') = 1" by auto
    then obtain x where "accepted ch ch' = [x]" by (cases "accepted ch ch'") auto
    with True show ?thesis by simp
  next
    case False
    with Cons.hyps(1) have "ch' = ch" by auto
    with False show ?thesis by (simp add: accepted_def)
  qed
  have "map fst (handedOut i (ch # chs) (ch' # chs'))
      = (if canSend ch then [i] else []) @ map ((+) (Suc i)) (filter (\<lambda>j. canSend (chs ! j)) [0..<length chs])"
    using hd Cons.IH [of "Suc i"] by simp
  also have "\<dots> = map ((+) i) (filter (\<lambda>j. canSend ((ch # chs) ! j)) [0..<length (ch # chs)])"
    unfolding up by (simp add: f comp_def)
  finally show ?case .
qed

lemma sendMessage_indices:
  assumes "sendMessage b parts appName processName containerName w = (b', w')"
  shows "map fst (handedOut 0 (msgChans b) (msgChans b'))
     = filter (\<lambda>i. canSend (msgChans b ! i)) [0..<length (msgChans b)]"
proof -
  have "map ((+) (0::nat)) = (\<lambda>xs. xs)" by (rule ext) (simp add: map_idI)
  then show ?thesis
    using handedOut_indices [OF sendMessage_channels [OF assms], of 0] by simp
qed

text \<open>
  C7 (amended). A record fanned out to the N \<ge> 1 channels of the backend is put on
  exactly the channels that can take it, once on each. The message put on the last
  channel (index N - 1) carries the very buffer that was rendered; the message put on any
  other channel carries a slice of another array, built by appending to a buffer obtained
  from the pool during this call (when rendering ended the array was pooled or not yet
  allocated) and holding the same bytes; no two channels receive the same array.
  A sink worker that processes a message (\<^verbatim>\<open>process\<close>) puts its buffer back as the very
  last event of the call, after every write, and puts no other slice of that array back:
  this holds of every call that returns, and a call returns whenever the message fits or
  can be split (the limit is not positive, the message is within it, or header and trailer
  together are shorter than it).
\<close>

theorem buffer_handoff_and_return:
  assumes p: "wfPool w" and d: "distinct (map base (pool w))"
  shows "(msgChans b \<noteq> [] \<and> render b parts appName processName w = (m, w1)
          \<and> sendMessage b parts appName processName containerName w = (b', w') \<longrightarrow>
            list_all (\<lambda>(k, msg).
                (if k = length (msgChans b) - 1 then buffer msg = buffer m
                 else base (buffer msg) \<noteq> base (buffer m) \<and> \<not> owned w1 (base (buffer msg)))
                \<and> bytesOf w' (buffer msg) = bytesOf w1 (buffer m)
                \<and> wfMessage w' msg \<and> owned w' (base (buffer msg)))
              (handedOut 0 (msgChans b) (msgChans b'))
            \<and> distinct (map (\<lambda>(k, msg). base (buffer msg)) (handedOut 0 (msgChans b) (msgChans b')))
            \<and> wfPool w' \<and> distinct (map base (pool w'))
            \<and> map fst (handedOut 0 (msgChans b) (msgChans b'))
                = filter (\<lambda>i. canSend (msgChans b ! i)) [0..<length (msgChans b)])
       \<and> (owned w (base (buffer msg0)) \<and> process f c msg0 w = Some (Returns err w2) \<longrightarrow>
            (\<exists>tr. trace w2 = trace w @ tr @ [PoolPut (buffer msg0)]
                 \<and> list_all (\<lambda>s. base s \<noteq> base (buffer msg0)) (puts tr)))
       \<and> (wfMessage w msg0 \<and> owned w (base (buffer msg0))
            \<and> (messageLimit f \<le> 0 \<or> int (len (buffer msg0)) \<le> messageLimit f
                \<or> int (length (headerOf w msg0)) + int (length (trailerOf w msg0)) < messageLimit f) \<longrightarrow>
            (\<exists>e w3 tr. process f c msg0 w = Some (Returns e w3)
                 \<and> trace w3 = trace w @ tr @ [PoolPut (buffer msg0)]
                 \<and> list_all (\<lambda>s. base s \<noteq> base (buffer msg0)) (puts tr)))"
proof (intro conjI impI)
  assume a: "msgChans b \<noteq> [] \<and> render b parts appName processName w = (m, w1)
          \<and> sendMessage b parts appName processName containerName w = (b', w')"
  then have a1: "msgChans b \<noteq> []" and a2: "render b parts appName processName w = (m, w1)"
    and a3: "sendMessage b parts appName processName containerName w = (b', w')"
    by simp_all
  show "list_all (\<lambda>(k, msg).
                (if k = length (msgChans b) - 1 then buffer msg = buffer m
                 else base (buffer msg) \<noteq> base (buffer m) \<and> \<not> owned w1 (base (buffer msg)))
                \<and> bytesOf w' (buffer msg) = bytesOf w1 (buffer m)
                \<and> wfMessage w' msg \<and> owned w' (base (buffer msg)))
              (handedOut 0 (msgChans b) (msgChans b'))"
    by (rule sendMessage_buffers(1) [OF p d a1 a2 a3])
  show "distinct (map (\<lambda>(k, msg). base (buffer msg)) (handedOut 0 (msgChans b) (msgChans b')))"
    by (rule sendMessage_buffers(2) [OF p d a1 a2 a3])
  show "wfPool w'" by (rule sendMessage_buffers(3) [OF p d a1 a2 a3])
  show "distinct (map base (pool w'))" by (rule sendMessage_buffers(4) [OF p d a1 a2 a3])
  show "map fst (handedOut 0 (msgChans b) (msgChans b'))
      = filter (\<lambda>i. canSend (msgChans b ! i)) [0..<length (msgChans b)]"
    by (rule sendMessage_indices [OF a3])
next
  assume "owned w (base (buffer msg0)) \<and> process f c msg0 w = Some (Returns err w2)"
  then show "\<exists>tr. trace w2 = trace w @ tr @ [PoolPut (buffer msg0)]
                 \<and> list_all (\<lambda>s. base s \<noteq> base (buffer msg0)) (puts tr)"
    using process_puts [OF _ p] by blast
next
  assume a: "wfMessage w msg0 \<and> owned w (base (buffer msg0))
            \<and> (messageLimit f \<le> 0 \<or> int (len (buffer msg0)) \<le> messageLimit f
                \<or> int (length (headerOf w msg0)) + int (length (trailerOf w msg0)) < messageLimit f)"
  then have m: "wfMessage w msg0" and o: "owned w (base (buffer msg0))"
    and ok: "messageLimit f \<le> 0 \<or> int (len (buffer msg0)) \<le> messageLimit f
                \<or> int (length (headerOf w msg0)) + int (length (trailerOf w msg0)) < messageLimit f"
    by simp_all
  from splitParts_returns [OF m p o ok, of c]
  obtain e w1 where "splitParts f c msg0 w = Some (Returns e w1)" by blast
  then have pr: "process f c msg0 w = Some (Returns e (poolPut (buffer msg0) w1))"
    by (simp add: process_def)
  from process_puts [OF pr p o] pr
  show "\<exists>e w3 tr. process f c msg0 w = Some (Returns e w3)
                 \<and> trace w3 = trace w @ tr @ [PoolPut (buffer msg0)]
                 \<and> list_all (\<lambda>s. base s \<noteq> base (buffer msg0)) (puts tr)"
    by blast
qed

theorem buffer_handoff_and_return_witness:
  "wfPool emptyWorld \<and> distinct (map base (pool emptyWorld))
   \<and> msgChans (exBackend grenada [exChan 1, exChan 1]) \<noteq> []
   \<and> length (handedOut 0 (msgChans (exBackend grenada [exChan 1, exChan 1]))
        (msgChans (fst (sendMessage (exBackend grenada [exChan 1, exChan 1]) exParts ''coolappname''
           ''procx'' [] emptyWorld)))) = 2
   \<and> list_all (\<lambda>(k, msg).
        if k = 1
        then buffer msg = buffer (fst (render (exBackend grenada [exChan 1, exChan 1]) exParts
                 ''coolappname'' ''procx'' emptyWorld))
        else base (buffer msg) \<noteq> base (buffer (fst (render (exBackend grenada [exChan 1, exChan 1])
                 exParts ''coolappname'' ''procx'' emptyWorld))))
      (handedOut 0 (msgChans (exBackend grenada [exChan 1, exChan 1]))
        (msgChans (fst (sendMessage (exBackend grenada [exChan 1, exChan 1]) exParts ''coolappname''
           ''procx'' [] emptyWorld))))
   \<and> wfPool exWorld \<and> distinct (map base (pool exWorld)) \<and> owned exWorld (base (buffer exMessage))
   \<and> wfMessage exWorld exMessage
   \<and> (\<exists>e w3 tr. process (exForwarder 155) peerOk exMessage exWorld = Some (Returns e w3)
         \<and> trace w3 = trace exWorld @ tr @ [PoolPut (buffer exMessage)]
         \<and> list_all (\<lambda>s. base s \<noteq> base (buffer exMessage)) (puts tr))"
proof -
  let ?B = "exBackend grenada [exChan 1, exChan 1]"
  let ?s = "sendMessage ?B exParts ''coolappname'' ''procx'' [] emptyWorld"
  let ?r = "render ?B exParts ''coolappname'' ''procx'' emptyWorld"
  have p: "wfPool emptyWorld" and d: "distinct (map base (pool emptyWorld))"
    by (simp_all add: wfPool_def emptyWorld_def)
  have mc: "msgChans ?B = [exChan 1, exChan 1]" and cs: "canSend (exChan 1)"
    by (simp_all add: exBackend_def canSend_def exChan_def)
  have pre: "msgChans ?B \<noteq> [] \<and> render ?B exParts ''coolappname'' ''procx'' emptyWorld = (fst ?r, snd ?r)
      \<and> sendMessage ?B exParts ''coolappname'' ''procx'' [] emptyWorld = (fst ?s, snd ?s)"
    using mc by simp
  have l1: "length (msgChans ?B) - 1 = 1" using mc by simp
  note X = conjunct1 [OF mp [OF conjunct1 [OF buffer_handoff_and_return [OF p d, of ?B exParts
      "''coolappname''" "''procx''" "fst ?r" "snd ?r" "[]" "fst ?s" "snd ?s"]] pre]]
  have A: "list_all (\<lambda>(k, msg).
        if k = 1 then buffer msg = buffer (fst ?r) else base (buffer msg) \<noteq> base (buffer (fst ?r)))
      (handedOut 0 (msgChans ?B) (msgChans (fst ?s)))"
    using X unfolding l1 list_all_iff by (fastforce split: if_splits)
  from sendMessage_channels [OF prod.collapse [symmetric, of ?s]] mc cs
  obtain c1 c2 where "msgChans (fst ?s) = [c1, c2]"
    "length (accepted (exChan 1) c1) = 1" "length (accepted (exChan 1) c2) = 1"
    by (auto simp: list_all2_Cons1)
  then have len: "length (handedOut 0 (msgChans ?B) (msgChans (fst ?s))) = 2"
    using mc by simp
  have pe: "wfPool exWorld" and de: "distinct (map base (pool exWorld))"
    by (simp_all add: wfPool_def exWorld_def)
  have ok: "messageLimit (exForwarder 155) \<le> 0
      \<or> int (len (buffer exMessage)) \<le> messageLimit (exForwarder 155)
      \<or> int (length (headerOf exWorld exMessage)) + int (length (trailerOf exWorld exMessage))
          < messageLimit (exForwarder 155)"
    using message_parts(2,4) [OF ex_facts(1)]
    by (simp add: exForwarder_def udpHeaderSz_def exMessage_def)
  have pre2: "wfMessage exWorld exMessage \<and> owned exWorld (base (buffer exMessage))
      \<and> (messageLimit (exForwarder 155) \<le> 0
         \<or> int (len (buffer exMessage)) \<le> messageLimit (exForwarder 155)
         \<or> int (length (headerOf exWorld exMessage)) + int (length (trailerOf exWorld exMessage))
            < messageLimit (exForwarder 155))"
    using ex_facts(1,3) ok by simp
  note B = mp [OF conjunct2 [OF conjunct2 [OF buffer_handoff_and_return [OF pe de,
      of _ _ _ _ _ _ _ _ _ exMessage "exForwarder 155" peerOk]]] pre2]
  show ?thesis using p d mc len A pe de ex_facts(1,3) B by simp
qed

text \<open>
  C7 as stated fails in two ways. A sink whose channel is full is handed nothing: with one
  sink of capacity 0 that is not receiving, the rendered buffer is neither put on the
  channel nor put back into the pool. And on an interface of MTU 153 the worker panics
  while splitting the test line, before it puts the buffer back.
\<close>

theorem full_sink_gets_no_buffer_counterexample:
  "length (msgChans (exBackend grenada [exChan 0])) = 1
   \<and> handedOut 0 (msgChans (exBackend grenada [exChan 0]))
        (msgChans (fst (sendMessage (exBackend grenada [exChan 0]) exParts ''coolappname'' ''procx'' []
           emptyWorld))) = []
   \<and> puts (trace (snd (sendMessage (exBackend grenada [exChan 0]) exParts ''coolappname'' ''procx'' []
           emptyWorld))) = []
   \<and> panicked (process (exForwarder 153) peerOk exMessage exWorld)
   \<and> puts (traceOf (process (exForwarder 153) peerOk exMessage exWorld)) = []"
proof -
  let ?B = "exBackend grenada [exChan 0]"
  let ?s = "sendMessage ?B exParts ''coolappname'' ''procx'' [] emptyWorld"
  have B: "msgChans ?B = [exChan 0]" "\<not> canSend (exChan 0)"
    by (simp_all add: exBackend_def exChan_def canSend_def)
  have st: "msgChans ?B \<noteq> []" "list_all (\<lambda>ch. \<not> canSend ch) (msgChans ?B)" using B by simp_all
  have same: "msgChans (fst ?s) = msgChans ?B"
    by (rule stuck_send(1) [OF st prod.collapse [symmetric]])
  have h: "handedOut 0 (msgChans ?B) (msgChans (fst ?s)) = []"
    unfolding same B by (simp add: accepted_def)
  from sendMessage_notices [OF prod.collapse [symmetric, of ?s]]
  obtain tr where "trace (snd ?s) = trace emptyWorld @ tr" "puts tr = []" by blast
  then have p: "puts (trace (snd ?s)) = []" by (simp add: emptyWorld_def)
  show ?thesis using B(1) h p process_no_room by simp
qed

subsection \<open>Writing one datagram\<close>

lemma decodeRune_ascii: "(of_char c :: nat) < 0x80 \<Longrightarrow> decodeRune (c # cs) = (of_char c, 1)"
  by (simp add: decodeRune_def)

lemma quoteRunes_plain: "list_all plainChar s \<Longrightarrow> quoteRunes tbl s = s"
proof (induction s)
  case Nil
  show ?case by simp
next
  case (Cons c cs)
  from Cons.prems have pc: "plainChar c" and rest: "list_all plainChar cs" by simp_all
  from pc have r: "0x20 \<le> (of_char c :: nat)" "(of_char c :: nat) < 0x7F"
    "(of_char c :: nat) \<noteq> 0x22" "(of_char c :: nat) \<noteq> 0x5C"
    by (simp_all add: plainChar_def)
  have d: "decodeRune (c # cs) = (of_char c, 1)" using r by (simp add: decodeRune_ascii)
  have ne: "(of_char c :: nat) \<noteq> runeError" using r by (simp add: runeError_def)
  have e: "appendEscapedRune tbl (of_char c) [c] = [c]"
    using r by (simp add: appendEscapedRune_def strconvIsPrint_def)
  show ?case using d ne e Cons.IH [OF rest] by simp
qed

lemma goQuote_plain: "list_all plainChar s \<Longrightarrow> goQuote tbl s = CHR 0x22 # s @ [CHR 0x22]"
  by (simp add: goQuote_def quoteRunes_plain)

lemma goQuote_examples:
  "goQuote tbl [CHR ''c'', CHR ''a'', CHR ''f'', CHR 0xC3, CHR 0xA9]
     = [CHR 0x22, CHR ''c'', CHR ''a'', CHR ''f'', CHR 0xC3, CHR 0xA9, CHR 0x22]"
  "goQuote tbl [CHR ''a'', CHR 0x22, CHR 0xFF, CHR 0x0A]
     = [CHR 0x22, CHR ''a'', CHR 0x5C, CHR 0x22, CHR 0x5C, CHR ''x'', CHR ''f'', CHR ''f'',
        CHR 0x5C, CHR ''n'', CHR 0x22]"
  by (simp_all add: goQuote_def decodeRune_def inRange_def runeError_def appendEscapedRune_def
      strconvIsPrint_def hexDigit_def)

text \<open>
  C8. Every write of a sink worker goes through \<^verbatim>\<open>writePart\<close>, which first sets the
  write deadline two seconds after the current time and only then writes (the write is
  skipped when the deadline cannot be set, and the call then fails with that error). Once
  the deadline is set, the result is the error of the write when it reports one, the
  short-write error when it reports none but fewer bytes than the buffer holds, and
  success otherwise; so a write that reports fewer bytes than the buffer holds always
  yields an error, whether or not the write reports one itself.
\<close>

theorem writePart_deadline_then_write:
  "(\<exists>tr. trace (snd (writePart f c buf w))
          = trace w @ SetWriteDeadline (now w + 2 * second) # tr
        \<and> (case deadlineReply c (length (trace w)) of
             Some e \<Rightarrow> tr = [] \<and> fst (writePart f c buf w) = Some e
           | None \<Rightarrow> tr = [Write (bytesOf w buf)]))
   \<and> (deadlineReply c (length (trace w)) = None \<longrightarrow>
        fst (writePart f c buf w)
          = (case writeReply c (Suc (length (trace w))) (bytesOf w buf) of
               (n, Some e) \<Rightarrow> Some e
             | (n, None) \<Rightarrow>
                 if n < int (len buf)
                 then Some (''[log forwarder] short write trying to write log to ''
                              @ goQuote (isPrint w) (remoteAddr c))
                 else None))
   \<and> (deadlineReply c (length (trace w)) = None
        \<and> fst (writeReply c (Suc (length (trace w))) (bytesOf w buf)) < int (len buf) \<longrightarrow>
        fst (writePart f c buf w) \<noteq> None)"
  by (auto simp: writePart_def connSetWriteDeadline_def connWrite_def Let_def bytesOf_def
      forwardConnWriteTimeout_def split: option.splits prod.splits)

theorem writePart_deadline_then_write_witness:
  "deadlineReply peerShort (length (trace exWorld)) = None
   \<and> fst (writeReply peerShort (Suc (length (trace exWorld))) (bytesOf exWorld (buffer exMessage)))
       < int (len (buffer exMessage))
   \<and> fst (writePart (exForwarder 1500) peerShort (buffer exMessage) exWorld)
     = Some (''[log forwarder] short write trying to write log to '' @ [CHR 0x22] @ ''10.0.0.1:514'' @ [CHR 0x22])
   \<and> trace (snd (writePart (exForwarder 1500) peerShort (buffer exMessage) exWorld))
     = [SetWriteDeadline 2000000000, Write exLine]
   \<and> deadlineReply peerBroken (length (trace exWorld)) = None
   \<and> fst (writeReply peerBroken (Suc (length (trace exWorld))) (bytesOf exWorld (buffer exMessage)))
       < int (len (buffer exMessage))
   \<and> fst (writePart (exForwarder 1500) peerBroken (buffer exMessage) exWorld)
     = Some ''write: broken pipe''"
proof -
  have q: "goQuote (isPrint exWorld) (remoteAddr peerShort) = [CHR 0x22] @ ''10.0.0.1:514'' @ [CHR 0x22]"
    by (simp add: goQuote_plain peerShort_def plainChar_def)
  have b: "bytesOf exWorld (buffer exMessage) = exLine"
    by (simp add: bytesOf_def exWorld_def exMessage_def exLine_def)
  have t: "trace exWorld = []" "now exWorld = 0" by (simp_all add: exWorld_def)
  have r: "writeReply peerShort (Suc 0) exLine = (58, None)" "deadlineReply peerShort 0 = None"
    by (simp_all add: peerShort_def exLine_def)
  have r2: "writeReply peerBroken (Suc 0) exLine = (10, Some ''write: broken pipe'')"
    "deadlineReply peerBroken 0 = None"
    by (simp_all add: peerBroken_def)
  have l: "int (len (buffer exMessage)) = 59" by (simp add: exMessage_def)
  from writePart_deadline_then_write [of "exForwarder 1500" peerShort "buffer exMessage" exWorld]
    writePart_deadline_then_write [of "exForwarder 1500" peerBroken "buffer exMessage" exWorld]
  show ?thesis
    using b t r r2 l q by (auto simp: second_def)
qed

subsection \<open>A dial that fails at start\<close>

lemma connect_error:
  "fst (connect tbl d f) = Inl e \<longleftrightarrow>
     (\<exists>cause. d (scheme (furl f)) (host (furl f)) = Inl cause
        \<and> e = ''[log forwarder] unable to connect to '' @ goQuote tbl (urlString (furl f)) @ '': '' @ cause)"
  by (auto simp: connect_def split: sum.splits)

lemma specDialError_quote:
  "list_all plainChar u \<Longrightarrow>
     ''[log forwarder] unable to connect to '' @ goQuote tbl u @ '': '' @ cause = specDialError u cause"
  by (simp add: goQuote_plain specDialError_def)

lemma initializeForwarders_stops:
  assumes "list_all (reachable h) pre" and "urlParse h addr = Inr u"
    and "netDialTimeout h (scheme u) (host u) = Inl cause"
  shows "\<exists>chs. initializeForwarders h m sz (pre @ addr # post) b
           = (Some (''[log forwarder] unable to connect to '' @ goQuote (unicodeIsPrint h) (urlString u) @ '': '' @ cause),
              b\<lparr>msgChans := msgChans b @ chs\<rparr>)
         \<and> length chs = length pre"
  using assms
proof (induction pre arbitrary: b)
  case Nil
  then show ?case
    by (auto simp: processMessages_def connect_def intro: exI [of _ "[]"])
next
  case (Cons a pre)
  from Cons.prems(1) have ra: "reachable h a" and rest: "list_all (reachable h) pre"
    by simp_all
  from ra obtain v c where av: "urlParse h a = Inr v"
    and dc: "netDialTimeout h (scheme v) (host v) = Inr c"
    by (auto simp: reachable_def split: sum.splits)
  obtain ch where pm: "processMessages (unicodeIsPrint h) (netDialTimeout h) \<lparr>furl = v, mtu = m, messageLimit = 0\<rparr> sz = Inr ch"
    using dc by (simp add: processMessages_def connect_def)
  from Cons.IH [OF rest Cons.prems(2,3), of "b\<lparr>msgChans := msgChans b @ [ch]\<rparr>"]
  obtain chs where "initializeForwarders h m sz (pre @ addr # post) (b\<lparr>msgChans := msgChans b @ [ch]\<rparr>)
           = (Some (''[log forwarder] unable to connect to '' @ goQuote (unicodeIsPrint h) (urlString u) @ '': '' @ cause),
              b\<lparr>msgChans := msgChans b @ [ch] @ chs\<rparr>)" and "length chs = length pre"
    by auto
  then show ?case using av pm
    by (auto intro!: exI [of _ "ch # chs"])
qed


text \<open>
  C9 (amended). \<^verbatim>\<open>connect\<close> fails exactly when the dial fails, and its error is then the
  text \<^verbatim>\<open>[log forwarder] unable to connect to\<close>, the parsed forward URL as \<^verbatim>\<open>%q\<close>
  prints it, a colon and the cause of the dial. At start, when the addresses before the
  failing one parse and can be dialled, \<^verbatim>\<open>initialize\<close> returns this very error and
  stops: the backend holds the channels of the earlier addresses only. The error is the
  line the specification gives, with the configured address itself between double
  quotes, whenever the parsed URL prints as the address was written and the address is
  printable ASCII without quote or backslash.
\<close>

theorem dial_failure_aborts_start:
  "(\<forall>e. fst (connect tbl d f) = Inl e \<longleftrightarrow>
       (\<exists>cause. d (scheme (furl f)) (host (furl f)) = Inl cause
          \<and> e = ''[log forwarder] unable to connect to '' @ goQuote tbl (urlString (furl f))
                @ '': '' @ cause))
   \<and> (forwardAddresses env = pre @ addr # post \<and> list_all (reachable h) pre
        \<and> urlParse h addr = Inr u \<and> netDialTimeout h (scheme u) (host u) = Inl cause \<longrightarrow>
         (\<exists>e. fst (connect (unicodeIsPrint h) (netDialTimeout h)
                  \<lparr>furl = u, mtu = initializeMtu (mtuNetworkInterface env) (netInterfaceByName h),
                   messageLimit = 0\<rparr>) = Inl e
            \<and> fst (initialize h env t b) = Some e
            \<and> e = ''[log forwarder] unable to connect to '' @ goQuote (unicodeIsPrint h) (urlString u)
                  @ '': '' @ cause
            \<and> (urlString u = addr \<and> list_all plainChar addr \<longrightarrow> e = specDialError addr cause))
         \<and> length (msgChans (snd (initialize h env t b))) = length (msgChans b) + length pre)"
proof (intro conjI allI impI)
  fix e
  show "fst (connect tbl d f) = Inl e \<longleftrightarrow>
       (\<exists>cause. d (scheme (furl f)) (host (furl f)) = Inl cause
          \<and> e = ''[log forwarder] unable to connect to '' @ goQuote tbl (urlString (furl f))
                @ '': '' @ cause)"
    by (rule connect_error)
next
  assume a: "forwardAddresses env = pre @ addr # post \<and> list_all (reachable h) pre
        \<and> urlParse h addr = Inr u \<and> netDialTimeout h (scheme u) (host u) = Inl cause"
  let ?m = "initializeMtu (mtuNetworkInterface env) (netInterfaceByName h)"
  let ?e = "''[log forwarder] unable to connect to '' @ goQuote (unicodeIsPrint h) (urlString u)
              @ '': '' @ cause"
  have ne: "forwardAddresses env \<noteq> []" using a by simp
  obtain b' where ini: "initialize h env t b
      = initializeForwarders h ?m (bufferSize env) (pre @ addr # post) b'"
    and mc: "msgChans b' = msgChans b"
    using a ne by (auto simp: initialize_def Let_def)
  from a initializeForwarders_stops [of h pre addr u cause ?m "bufferSize env" post b']
  obtain chs where st: "initializeForwarders h ?m (bufferSize env) (pre @ addr # post) b'
      = (Some ?e, b'\<lparr>msgChans := msgChans b' @ chs\<rparr>)" and l: "length chs = length pre"
    by blast
  have c: "fst (connect (unicodeIsPrint h) (netDialTimeout h) \<lparr>furl = u, mtu = ?m, messageLimit = 0\<rparr>)
      = Inl ?e"
    using a by (simp add: connect_error)
  have s: "urlString u = addr \<and> list_all plainChar addr \<longrightarrow> ?e = specDialError addr cause"
    using specDialError_quote [of addr "unicodeIsPrint h" cause] by auto
  show "\<exists>e. fst (connect (unicodeIsPrint h) (netDialTimeout h) \<lparr>furl = u, mtu = ?m, messageLimit = 0\<rparr>)
              = Inl e
            \<and> fst (initialize h env t b) = Some e
            \<and> e = ?e
            \<and> (urlString u = addr \<and> list_all plainChar addr \<longrightarrow> e = specDialError addr cause)"
    using c ini st s by auto
  show "length (msgChans (snd (initialize h env t b))) = length (msgChans b) + length pre"
    using ini st l mc by simp
qed

lemma ex_dial_facts:
  "urlParse exHost ''xudp://127.0.0.1:1234''
     = Inr \<lparr>scheme = ''xudp'', host = ''127.0.0.1:1234'', urlString = ''xudp://127.0.0.1:1234''\<rparr>"
  "urlParse exHost ''XUDP://127.0.0.1:1234''
     = Inr \<lparr>scheme = ''xudp'', host = ''127.0.0.1:1234'', urlString = ''xudp://127.0.0.1:1234''\<rparr>"
  "netDialTimeout exHost ''xudp'' ''127.0.0.1:1234'' = Inl ''dial xudp: unknown network xudp''"
  "list_all plainChar ''xudp://127.0.0.1:1234''"
  "list_all (reachable exHost) [''udp://10.0.0.1:514'']"
  "msgChans (exBackend grenada []) = []"
  by (simp_all add: exHost_def exUrlParse_def exDial_def plainChar_def reachable_def
      exForwarder_def exBackend_def)

theorem dial_failure_aborts_start_witness:
  "forwardAddresses exEnv = [''udp://10.0.0.1:514''] @ ''xudp://127.0.0.1:1234'' # []
   \<and> list_all (reachable exHost) [''udp://10.0.0.1:514'']
   \<and> urlParse exHost ''xudp://127.0.0.1:1234''
       = Inr \<lparr>scheme = ''xudp'', host = ''127.0.0.1:1234'', urlString = ''xudp://127.0.0.1:1234''\<rparr>
   \<and> netDialTimeout exHost ''xudp'' ''127.0.0.1:1234'' = Inl ''dial xudp: unknown network xudp''
   \<and> list_all plainChar ''xudp://127.0.0.1:1234''
   \<and> fst (initialize exHost exEnv 0 (exBackend grenada []))
       = Some (''[log forwarder] unable to connect to '' @ [CHR 0x22] @ ''xudp://127.0.0.1:1234''
                 @ [CHR 0x22] @ '': dial xudp: unknown network xudp'')
   \<and> length (msgChans (snd (initialize exHost exEnv 0 (exBackend grenada [])))) = 1"
proof -
  let ?u = "\<lparr>scheme = ''xudp'', host = ''127.0.0.1:1234'', urlString = ''xudp://127.0.0.1:1234''\<rparr>"
  have fa: "forwardAddresses exEnv = [''udp://10.0.0.1:514''] @ ''xudp://127.0.0.1:1234'' # []"
    by (simp add: exEnv_def)
  have di: "netDialTimeout exHost (scheme ?u) (host ?u) = Inl ''dial xudp: unknown network xudp''"
    using ex_dial_facts(3) by simp
  have us: "urlString ?u = ''xudp://127.0.0.1:1234''" by simp
  from dial_failure_aborts_start [where env = exEnv and pre = "[''udp://10.0.0.1:514'']"
      and addr = "''xudp://127.0.0.1:1234''" and post = "[]" and h = exHost and u = ?u
      and cause = "''dial xudp: unknown network xudp''" and t = 0 and b = "exBackend grenada []"]
    fa ex_dial_facts(1,4,5,6) di us
  show ?thesis by (auto simp: specDialError_def)
qed

text \<open>
  C9 as stated fails for an address that \<^verbatim>\<open>url.Parse\<close> does not print back as it was
  written: the error names the parsed URL, not the configured address. Configured with
  \<^verbatim>\<open>XUDP://127.0.0.1:1234\<close>, the start fails with an error that quotes
  \<^verbatim>\<open>xudp://127.0.0.1:1234\<close>.
\<close>

theorem dial_error_names_parsed_url_counterexample:
  "forwardAddresses exEnvUpper = [''XUDP://127.0.0.1:1234'']
   \<and> fst (initialize exHost exEnvUpper 0 (exBackend grenada []))
       = Some (specDialError ''xudp://127.0.0.1:1234'' ''dial xudp: unknown network xudp'')
   \<and> fst (initialize exHost exEnvUpper 0 (exBackend grenada []))
       \<noteq> Some (specDialError ''XUDP://127.0.0.1:1234'' ''dial xudp: unknown network xudp'')"
proof -
  let ?u = "\<lparr>scheme = ''xudp'', host = ''127.0.0.1:1234'', urlString = ''xudp://127.0.0.1:1234''\<rparr>"
  have fa: "forwardAddresses exEnvUpper = [''XUDP://127.0.0.1:1234'']"
    by (simp add: exEnvUpper_def)
  have ini: "initialize exHost exEnvUpper 0 (exBackend grenada [])
      = initializeForwarders exHost (initializeMtu (mtuNetworkInterface exEnvUpper) (netInterfaceByName exHost))
          (bufferSize exEnvUpper) ([] @ ''XUDP://127.0.0.1:1234'' # [])
          (exBackend grenada []\<lparr>syslogLocation := timeLocal exHost, nextNotify := 0\<rparr>)"
    by (simp add: initialize_def Let_def exEnvUpper_def exEnv_def)
  have di: "netDialTimeout exHost (scheme ?u) (host ?u) = Inl ''dial xudp: unknown network xudp''"
    using ex_dial_facts(3) by simp
  have em: "list_all (reachable exHost) []" by simp
  from initializeForwarders_stops [OF em ex_dial_facts(2) di]
  have "fst (initialize exHost exEnvUpper 0 (exBackend grenada []))
      = Some (''[log forwarder] unable to connect to '' @ goQuote (unicodeIsPrint exHost) ''xudp://127.0.0.1:1234''
                @ '': '' @ ''dial xudp: unknown network xudp'')"
    unfolding ini by (metis fst_conv url.select_convs(3))
  then have e: "fst (initialize exHost exEnvUpper 0 (exBackend grenada []))
       = Some (specDialError ''xudp://127.0.0.1:1234'' ''dial xudp: unknown network xudp'')"
    using specDialError_quote [OF ex_dial_facts(4)] by simp
  show ?thesis using fa e by (simp add: specDialError_def)
qed

subsection \<open>Priorities of parsed lines\<close>

lemma decimal_snoc: "decimal (ds @ [c]) = 10 * decimal ds + (of_char c - 48)"
  by (simp add: decimal_def)

lemma digit_char: "d < 10 \<Longrightarrow> isDigit (char_of (48 + d)) \<and> (of_char (char_of (48 + d) :: char) :: nat) - 48 = d"
  by (simp add: isDigit_def)

lemma decimalDigits_props:
  "list_all isDigit (decimalDigits n) \<and> decimalDigits n \<noteq> [] \<and> decimal (decimalDigits n) = n"
proof (induction n rule: decimalDigits.induct)
  case (1 n)
  show ?case
  proof (cases "n < 10")
    case True
    then show ?thesis
      using digit_char [of n] by (subst (1 2 3) decimalDigits.simps) (simp add: decimal_def)
  next
    case False
    have d: "n mod 10 < 10" by simp
    from False 1 have ih: "list_all isDigit (decimalDigits (n div 10))"
      "decimal (decimalDigits (n div 10)) = n div 10" by simp_all
    show ?thesis
      using False ih digit_char [OF d]
      by (subst (1 2 3) decimalDigits.simps) (simp add: decimal_snoc)
  qed
qed

lemma decimalDigits_length: "n < 1000 \<Longrightarrow> length (decimalDigits n) \<le> 3"
proof -
  assume n: "n < 1000"
  have a: "\<And>k. k < 10 \<Longrightarrow> length (decimalDigits k) = 1"
    by (subst decimalDigits.simps) simp
  have b: "\<And>k. k < 100 \<Longrightarrow> length (decimalDigits k) \<le> 2"
  proof -
    fix k :: nat assume "k < 100"
    then have "k div 10 < 10" by simp
    then show "length (decimalDigits k) \<le> 2"
      using a [of "k div 10"] a [of k] by (subst decimalDigits.simps) simp
  qed
  from n have "n div 10 < 100" by simp
  then show ?thesis using b [of "n div 10"] a [of n] by (subst decimalDigits.simps) simp
qed

lemma parsePriority_header:
  assumes "list_all isDigit ds" "ds \<noteq> []" "length ds \<le> 3"
  shows "parsePriority (''<'' @ ds @ ''>'' @ body) = Some (decimal ds, body)"
proof -
  have g: "\<not> isDigit CHR ''>''" by (simp add: isDigit_def)
  have all: "\<forall>x\<in>set ds. isDigit x" using assms(1) by (simp add: list_all_iff)
  have t: "takeWhile isDigit (ds @ CHR ''>'' # body) = ds"
    using all g by (simp add: takeWhile_tail)
  have d: "dropWhile isDigit (ds @ CHR ''>'' # body) = CHR ''>'' # body"
    using all g by (simp add: dropWhile_append3)
  show ?thesis using assms t d by (simp add: parsePriority_def)
qed

lemma Parse_priority:
  "fst (Parse line) = None
   \<and> facility (snd (Parse line)) = lpPriority (snd (Parse line)) div 8
   \<and> severity (snd (Parse line)) = lpPriority (snd (Parse line)) mod 8
   \<and> rawmsg (snd (Parse line)) = line"
  by (simp add: Parse_def emptyParts_def withPriority_def parseBsd_def parseRfc5424_def
      withTag_def Let_def split: option.splits shape.splits prod.splits)

lemma Parse_shaped:
  assumes "parsePriority line = Some (p, body)" "shapeOf body = Some sh"
  shows "lpPriority (snd (Parse line)) = p"
  using assms
  by (cases sh) (simp_all add: Parse_def withPriority_def)

lemma Parse_absent:
  assumes "parsePriority line = Some (p, body)"
  shows "shapeOf body = Some BsdIso \<or> shapeOf body = Some Bsd \<Longrightarrow>
           app_name (snd (Parse line)) = [] \<and> msg_id (snd (Parse line)) = []
           \<and> structured_data (snd (Parse line)) = [] \<and> version (snd (Parse line)) = []"
    and "shapeOf body = Some Bsd \<Longrightarrow> proc_id (snd (Parse line)) = []"
    and "shapeOf body = None \<Longrightarrow> snd (Parse line) = emptyParts line"
  using assms
  by (auto simp: Parse_def emptyParts_def withPriority_def parseBsd_def withTag_def Let_def
      split: prod.splits)


text \<open>
  C6. The lenient parser returns a record for every line, without an error. The record's
  facility and severity are the quotient and the remainder of its priority by 8, and a
  line that starts with a priority below 1000 in decimal between angle brackets, followed
  by text of one of the three shapes, gives that priority. The fields that only RFC 5424
  has are empty for the two BSD shapes, and a line of no shape gives the empty record.
\<close>

theorem lenient_parser_priority:
  "fst (Parse line) = None
   \<and> facility (snd (Parse line)) = lpPriority (snd (Parse line)) div 8
   \<and> severity (snd (Parse line)) = lpPriority (snd (Parse line)) mod 8
   \<and> rawmsg (snd (Parse line)) = line
   \<and> (n < 1000 \<and> shapeOf body = Some sh \<longrightarrow>
        lpPriority (snd (Parse (''<'' @ decimalDigits n @ ''>'' @ body))) = n
        \<and> facility (snd (Parse (''<'' @ decimalDigits n @ ''>'' @ body))) = n div 8
        \<and> severity (snd (Parse (''<'' @ decimalDigits n @ ''>'' @ body))) = n mod 8)
   \<and> (parsePriority line = Some (p, rest) \<and> (shapeOf rest = Some BsdIso \<or> shapeOf rest = Some Bsd) \<longrightarrow>
        app_name (snd (Parse line)) = [] \<and> msg_id (snd (Parse line)) = []
        \<and> structured_data (snd (Parse line)) = [] \<and> version (snd (Parse line)) = [])
   \<and> (parsePriority line = None \<or> (parsePriority line = Some (p, rest) \<and> shapeOf rest = None) \<longrightarrow>
        snd (Parse line) = emptyParts line)"
proof (intro conjI impI)
  show "fst (Parse line) = None" by (simp add: Parse_priority)
  show "facility (snd (Parse line)) = lpPriority (snd (Parse line)) div 8"
    by (simp add: Parse_priority)
  show "severity (snd (Parse line)) = lpPriority (snd (Parse line)) mod 8"
    by (simp add: Parse_priority)
  show "rawmsg (snd (Parse line)) = line" by (simp add: Parse_priority)
next
  let ?l = "''<'' @ decimalDigits n @ ''>'' @ body"
  assume a: "n < 1000 \<and> shapeOf body = Some sh"
  have pp: "parsePriority ?l = Some (n, body)"
    using parsePriority_header [of "decimalDigits n" body] decimalDigits_props [of n]
      decimalDigits_length [of n] a by simp
  from Parse_shaped [OF pp] a show p: "lpPriority (snd (Parse ?l)) = n" by simp
  show "facility (snd (Parse ?l)) = n div 8" using Parse_priority [of ?l] p by simp
  show "severity (snd (Parse ?l)) = n mod 8" using Parse_priority [of ?l] p by simp
next
  assume a: "parsePriority line = Some (p, rest) \<and> (shapeOf rest = Some BsdIso \<or> shapeOf rest = Some Bsd)"
  then have pp: "parsePriority line = Some (p, rest)"
    and sh: "shapeOf rest = Some BsdIso \<or> shapeOf rest = Some Bsd" by simp_all
  from Parse_absent(1) [OF pp sh]
  show "app_name (snd (Parse line)) = []" "msg_id (snd (Parse line)) = []"
    "structured_data (snd (Parse line)) = []" "version (snd (Parse line)) = []"
    by simp_all
next
  assume "parsePriority line = None \<or> (parsePriority line = Some (p, rest) \<and> shapeOf rest = None)"
  then show "snd (Parse line) = emptyParts line"
  proof
    assume "parsePriority line = None"
    then show ?thesis by (simp add: Parse_def)
  next
    assume "parsePriority line = Some (p, rest) \<and> shapeOf rest = None"
    then show ?thesis using Parse_absent(3) [of line p rest] by simp
  qed
qed

lemma ex_digits: "decimalDigits 30 = ''30''" "decimalDigits 31 = ''31''" "decimalDigits 165 = ''165''"
  by code_simp+

lemma ex_shapes:
  "shapeOf ''2015-06-05T16:13:47Z vagrant-ubuntu-trusty-64 docker/00dfa98fe8e0[4843]: hey'' = Some BsdIso"
  "shapeOf ''Dec 26 05:08:46 hostname tag[296]: content'' = Some Bsd"
  "shapeOf ''1 2003-08-24T05:14:15.000003Z 192.0.2.1 myproc 8710 - - content'' = Some Rfc5424"
  by (simp_all add: shapeOf_def isoLayout_def stampLayout_def isDigit_def isLetter_def)

theorem lenient_parser_priority_witness:
  "(30::nat) < 1000 \<and> (31::nat) < 1000 \<and> (165::nat) < 1000
   \<and> shapeOf ''2015-06-05T16:13:47Z vagrant-ubuntu-trusty-64 docker/00dfa98fe8e0[4843]: hey'' = Some BsdIso
   \<and> shapeOf ''Dec 26 05:08:46 hostname tag[296]: content'' = Some Bsd
   \<and> shapeOf ''1 2003-08-24T05:14:15.000003Z 192.0.2.1 myproc 8710 - - content'' = Some Rfc5424
   \<and> facility (snd (Parse ''<30>2015-06-05T16:13:47Z vagrant-ubuntu-trusty-64 docker/00dfa98fe8e0[4843]: hey'')) = 3
   \<and> severity (snd (Parse ''<30>2015-06-05T16:13:47Z vagrant-ubuntu-trusty-64 docker/00dfa98fe8e0[4843]: hey'')) = 6
   \<and> facility (snd (Parse ''<31>Dec 26 05:08:46 hostname tag[296]: content'')) = 3
   \<and> severity (snd (Parse ''<31>Dec 26 05:08:46 hostname tag[296]: content'')) = 7
   \<and> facility (snd (Parse ''<165>1 2003-08-24T05:14:15.000003Z 192.0.2.1 myproc 8710 - - content'')) = 20
   \<and> severity (snd (Parse ''<165>1 2003-08-24T05:14:15.000003Z 192.0.2.1 myproc 8710 - - content'')) = 5
   \<and> snd (Parse ''abc'') = emptyParts ''abc''"
proof -
  have np: "parsePriority ''abc'' = None" by (simp add: parsePriority_def)
  note A = lenient_parser_priority [where n = 30 and sh = BsdIso
      and body = "''2015-06-05T16:13:47Z vagrant-ubuntu-trusty-64 docker/00dfa98fe8e0[4843]: hey''"]
  note B = lenient_parser_priority [where n = 31 and sh = Bsd
      and body = "''Dec 26 05:08:46 hostname tag[296]: content''"]
  note C = lenient_parser_priority [where n = 165 and sh = Rfc5424
      and body = "''1 2003-08-24T05:14:15.000003Z 192.0.2.1 myproc 8710 - - content''"]
  note D = lenient_parser_priority [where line = "''abc''"]
  have a: "facility (snd (Parse ''<30>2015-06-05T16:13:47Z vagrant-ubuntu-trusty-64 docker/00dfa98fe8e0[4843]: hey'')) = 3
     \<and> severity (snd (Parse ''<30>2015-06-05T16:13:47Z vagrant-ubuntu-trusty-64 docker/00dfa98fe8e0[4843]: hey'')) = 6"
    using A ex_shapes(1) ex_digits(1) by simp
  have b: "facility (snd (Parse ''<31>Dec 26 05:08:46 hostname tag[296]: content'')) = 3
     \<and> severity (snd (Parse ''<31>Dec 26 05:08:46 hostname tag[296]: content'')) = 7"
    using B ex_shapes(2) ex_digits(2) by simp
  have c: "facility (snd (Parse ''<165>1 2003-08-24T05:14:15.000003Z 192.0.2.1 myproc 8710 - - content'')) = 20
     \<and> severity (snd (Parse ''<165>1 2003-08-24T05:14:15.000003Z 192.0.2.1 myproc 8710 - - content'')) = 5"
    using C ex_shapes(3) ex_digits(3) by simp
  have d: "snd (Parse ''abc'') = emptyParts ''abc''" using D np by simp
  show ?thesis using a b c d ex_shapes by simp
qed

lemma Parse_test_lines:
  "snd (Parse ''<30>2015-06-05T16:13:47Z vagrant-ubuntu-trusty-64 docker/00dfa98fe8e0[4843]: hey'')
     = \<lparr>lpPriority = 30, facility = 3, severity = 6, timestamp = ''2015-06-05T16:13:47Z'',
        hostname = ''vagrant-ubuntu-trusty-64'', tag = ''docker/00dfa98fe8e0'', proc_id = ''4843'',
        lpContent = ''hey'', app_name = [], msg_id = [], structured_data = [], version = [],
        rawmsg = ''<30>2015-06-05T16:13:47Z vagrant-ubuntu-trusty-64 docker/00dfa98fe8e0[4843]: hey'',
        containerId = ''00dfa98fe8e0''\<rparr>"
  by code_simp

subsection \<open>The lines of the websocket sink\<close>











lemma digit_plain: "digit n \<noteq> CHR 0x0A"
proof -
  have "digit n \<in> set ''0123456789''" unfolding digit_def by (rule nth_mem) simp
  then show ?thesis by auto
qed
















subsection \<open>The heartbeat\<close>

lemma heartbeats_append:
  "heartbeats i f (es @ es') s = heartbeats i f es' (heartbeats i f es s)"
  by (simp add: heartbeats_def)

lemma pongs_only:
  assumes "list_all (\<lambda>e. \<not> isTick e) seg"
  shows "errorLines (heartbeats i f seg s) = errorLines s"
    and "reconnects (heartbeats i f seg s) = reconnects s"
    and "pings (heartbeats i f seg s) = pings s"
    and "awaiting s = None \<Longrightarrow> awaiting (heartbeats i f seg s) = None"
    and "awaiting s = Some p \<Longrightarrow>
           awaiting (heartbeats i f seg s) = (if Pong p \<in> set seg then None else Some p)"
  using assms
proof (induction seg arbitrary: s)
  case Nil
  { case 1 show ?case by (simp add: heartbeats_def) }
  { case 2 show ?case by (simp add: heartbeats_def) }
  { case 3 show ?case by (simp add: heartbeats_def) }
  { case 4 then show ?case by (simp add: heartbeats_def) }
  { case 5 then show ?case by (simp add: heartbeats_def) }
next
  case (Cons e seg)
  { case 1
    from 1 obtain q where e: "e = Pong q" by (cases e) (auto simp: isTick_def)
    from 1 have r: "list_all (\<lambda>e. \<not> isTick e) seg" by simp
    show ?case using Cons.IH(1) [OF r, of "beat i f s e"] e by (simp add: heartbeats_def) }
  { case 2
    from 2 obtain q where e: "e = Pong q" by (cases e) (auto simp: isTick_def)
    from 2 have r: "list_all (\<lambda>e. \<not> isTick e) seg" by simp
    show ?case using Cons.IH(2) [OF r, of "beat i f s e"] e by (simp add: heartbeats_def) }
  { case 3
    from 3 obtain q where e: "e = Pong q" by (cases e) (auto simp: isTick_def)
    from 3 have r: "list_all (\<lambda>e. \<not> isTick e) seg" by simp
    show ?case using Cons.IH(3) [OF r, of "beat i f s e"] e by (simp add: heartbeats_def) }
  { case 4
    from 4 obtain q where e: "e = Pong q" by (cases e) (auto simp: isTick_def)
    from 4 have r: "list_all (\<lambda>e. \<not> isTick e) seg" by simp
    have "awaiting (beat i f s e) = None" using 4(1) e by simp
    from Cons.IH(4) [OF this r] show ?case by (simp add: heartbeats_def) }
  { case 5
    from 5 obtain q where e: "e = Pong q" by (cases e) (auto simp: isTick_def)
    from 5 have r: "list_all (\<lambda>e. \<not> isTick e) seg" by simp
    show ?case
    proof (cases "q = p")
      case True
      then have "awaiting (beat i f s e) = None" using 5(1) e by simp
      from Cons.IH(4) [OF this r] show ?thesis using True e by (simp add: heartbeats_def)
    next
      case False
      then have "awaiting (beat i f s e) = Some p" using 5(1) e by simp
      from Cons.IH(5) [OF this r] show ?thesis using False e by (simp add: heartbeats_def)
    qed }
qed


lemma split_at_tick:
  "es = takeWhile (\<lambda>e. \<not> isTick e) es @ dropWhile (\<lambda>e. \<not> isTick e) es"
  "list_all (\<lambda>e. \<not> isTick e) (takeWhile (\<lambda>e. \<not> isTick e) es)"
  "\<not> list_ex isTick es \<Longrightarrow> dropWhile (\<lambda>e. \<not> isTick e) es = []"
  "takeWhile (\<lambda>e. \<not> isTick e) (es @ [Tick]) = takeWhile (\<lambda>e. \<not> isTick e) es"
  "dropWhile (\<lambda>e. \<not> isTick e) (es @ [Tick]) = dropWhile (\<lambda>e. \<not> isTick e) es @ [Tick]"
proof -
  show "es = takeWhile (\<lambda>e. \<not> isTick e) es @ dropWhile (\<lambda>e. \<not> isTick e) es" by simp
  show "list_all (\<lambda>e. \<not> isTick e) (takeWhile (\<lambda>e. \<not> isTick e) es)"
    unfolding list_all_iff by (auto dest: set_takeWhileD)
  show "\<not> list_ex isTick es \<Longrightarrow> dropWhile (\<lambda>e. \<not> isTick e) es = []"
    by (simp add: list_ex_iff)
  have t: "\<not> \<not> isTick Tick" by (simp add: isTick_def)
  show "takeWhile (\<lambda>e. \<not> isTick e) (es @ [Tick]) = takeWhile (\<lambda>e. \<not> isTick e) es"
    using takeWhile_tail [of "\<lambda>e. \<not> isTick e" Tick es "[]"] t by simp
  show "dropWhile (\<lambda>e. \<not> isTick e) (es @ [Tick]) = dropWhile (\<lambda>e. \<not> isTick e) es @ [Tick]"
    using dropWhile_append3 [of "\<lambda>e. \<not> isTick e" Tick es "[]"] t by simp
qed

lemma healthy_run:
  "answered f n es \<Longrightarrow> length (pings s) = n \<Longrightarrow> awaiting s = None \<Longrightarrow>
     errorLines (heartbeats i f es s) = errorLines s
     \<and> reconnects (heartbeats i f es s) = reconnects s
     \<and> pings (heartbeats i f es s) = pings s @ map f [n..<n + length (filter isTick es)]
     \<and> (answered f n (es @ [Tick]) \<longrightarrow> awaiting (heartbeats i f es s) = None)"
proof (induction f n es arbitrary: s rule: answered.induct)
  case (1 fresh n)
  then show ?case by (simp add: heartbeats_def)
next
  case (2 fresh n q es)
  have b: "beat i fresh s (Pong q) = s" using 2(4) by simp
  have np: "filter isTick (Pong q # es) = filter isTick es" by (simp add: isTick_def)
  have h: "heartbeats i fresh (Pong q # es) s = heartbeats i fresh es s"
    by (simp only: heartbeats_def foldl.simps b)
  from 2(1) [of s] 2(2,3,4) show ?case unfolding h np by simp
next
  case (3 fresh n es)
  let ?P = "\<lambda>e. \<not> isTick e"
  let ?seg = "takeWhile ?P es" and ?rest = "dropWhile ?P es"
  define s1 where "s1 = beat i fresh s Tick"
  define s2 where "s2 = heartbeats i fresh ?seg s1"
  have s1: "awaiting s1 = Some (fresh n)" "length (pings s1) = Suc n"
    "errorLines s1 = errorLines s" "reconnects s1 = reconnects s"
    "pings s1 = pings s @ [fresh n]"
    using 3(3,4) by (simp_all add: s1_def)
  note S = pongs_only [OF split_at_tick(2) [of es], where i = i and f = fresh and s = s1,
      folded s2_def]
  have s2: "errorLines s2 = errorLines s" "reconnects s2 = reconnects s" "length (pings s2) = Suc n"
    "awaiting s2 = (if Pong (fresh n) \<in> set ?seg then None else Some (fresh n))"
    "pings s2 = pings s @ [fresh n]"
    using S(1,2,3) S(5) [OF s1(1)] s1 by simp_all
  have nt: "filter isTick ?seg = []"
    using split_at_tick(2) [of es] by (simp add: list_all_iff filter_empty_conv)
  have "filter isTick es = filter isTick (?seg @ ?rest)" by simp
  then have ft: "filter isTick (Tick # es) = Tick # filter isTick ?rest"
    unfolding filter_append nt by (simp add: isTick_def)
  have up: "[n..<n + Suc k] = n # [Suc n..<Suc n + k]" for k
    by (simp add: upt_conv_Cons del: upt_Suc)
  have run: "heartbeats i fresh (Tick # es) s = heartbeats i fresh ?rest s2"
  proof -
    have "heartbeats i fresh (Tick # es) s = heartbeats i fresh es s1"
      by (simp add: heartbeats_def s1_def)
    also have "\<dots> = heartbeats i fresh (?seg @ ?rest) s1" by simp
    also have "\<dots> = heartbeats i fresh ?rest s2" unfolding heartbeats_append s2_def ..
    finally show ?thesis .
  qed
  from 3(2) have a1: "list_ex isTick es \<longrightarrow> Pong (fresh n) \<in> set ?seg"
    and a2: "answered fresh (Suc n) ?rest" by simp_all
  show ?case
  proof (cases "list_ex isTick es")
    case True
    with a1 s2(4) have aw: "awaiting s2 = None" by simp
    from 3(1) [OF a2 s2(3) aw]
    have ih: "errorLines (heartbeats i fresh ?rest s2) = errorLines s2"
      "reconnects (heartbeats i fresh ?rest s2) = reconnects s2"
      "answered fresh (Suc n) (?rest @ [Tick]) \<longrightarrow> awaiting (heartbeats i fresh ?rest s2) = None"
      "pings (heartbeats i fresh ?rest s2)
         = pings s2 @ map fresh [Suc n..<Suc n + length (filter isTick ?rest)]"
      by simp_all
    have "answered fresh n ((Tick # es) @ [Tick]) \<longrightarrow> answered fresh (Suc n) (?rest @ [Tick])"
      by (simp add: split_at_tick(5))
    then show ?thesis unfolding run ft using ih s2(1,2,5) up by simp
  next
    case False
    then have r: "?rest = []" by (rule split_at_tick(3))
    have tt: "isTick Tick" by (simp add: isTick_def)
    have "answered fresh n ((Tick # es) @ [Tick]) \<longrightarrow> Pong (fresh n) \<in> set ?seg"
      by (simp add: split_at_tick(4) tt)
    then show ?thesis unfolding run ft r using s2 by (simp add: heartbeats_def)
  qed
qed

lemma missed_pong:
  assumes "awaiting s = Some p" "list_all (\<lambda>e. \<not> isTick e) seg" "Pong p \<notin> set seg"
  shows "errorLines (heartbeats i f (seg @ [Tick]) s) = errorLines s @ [noPong i]"
    and "reconnects (heartbeats i f (seg @ [Tick]) s) = Suc (reconnects s)"
proof -
  note S = pongs_only [OF assms(2), where i = i and f = f and s = s]
  have aw: "awaiting (heartbeats i f seg s) = Some p" using S(5) [OF assms(1)] assms(3) by simp
  show "errorLines (heartbeats i f (seg @ [Tick]) s) = errorLines s @ [noPong i]"
    unfolding heartbeats_append using aw S(1) by (simp add: heartbeats_def)
  show "reconnects (heartbeats i f (seg @ [Tick]) s) = Suc (reconnects s)"
    unfolding heartbeats_append using aw S(2) by (simp add: heartbeats_def)
qed


lemma answered_prefix: "answered f n (es @ [Tick]) \<Longrightarrow> answered f n es"
proof (induction f n es rule: answered.induct)
  case (1 fresh n)
  show ?case by simp
next
  case (2 fresh n q es)
  then show ?case by simp
next
  case (3 fresh n es)
  have tt: "isTick Tick" by (simp add: isTick_def)
  from 3(2) have a: "Pong (fresh n) \<in> set (takeWhile (\<lambda>e. \<not> isTick e) es)"
    and b: "answered fresh (Suc n) (dropWhile (\<lambda>e. \<not> isTick e) es @ [Tick])"
    by (simp_all add: split_at_tick(4,5) tt)
  from 3(1) [OF b] a show ?case by simp
qed

text \<open>
  C5. In a session in which every ping receives its pong before the next interval
  elapses, no line is logged and the session is never reconnected; the pings carry the
  payloads in their order. When, after such a beginning, the pong with the payload of a
  ping does not arrive before the interval elapses again, exactly the one line
  \<^verbatim>\<open>no pong response in\<close> with the interval is logged, and the session is reconnected
  once.
\<close>

theorem heartbeat_no_pong_logged_once:
  "(answered f 0 es \<longrightarrow>
       errorLines (heartbeats i f es connected) = []
       \<and> reconnects (heartbeats i f es connected) = 0
       \<and> pings (heartbeats i f es connected) = map f [0..<length (filter isTick es)])
   \<and> (answered f 0 (pre @ [Tick]) \<and> list_all (\<lambda>e. \<not> isTick e) seg
        \<and> Pong (f (length (filter isTick pre))) \<notin> set seg \<longrightarrow>
       pings (heartbeats i f (pre @ [Tick]) connected) = map f [0..<Suc (length (filter isTick pre))]
       \<and> errorLines (heartbeats i f (pre @ Tick # seg @ [Tick]) connected) = [noPong i]
       \<and> reconnects (heartbeats i f (pre @ Tick # seg @ [Tick]) connected) = 1)"
proof (intro conjI impI)
  have c: "length (pings connected) = 0" "awaiting connected = None" "errorLines connected = []"
    "reconnects connected = 0" "pings connected = []"
    by (simp_all add: connected_def)
  {
    assume a: "answered f 0 es"
    from healthy_run [OF a c(1,2), of i]
    show "errorLines (heartbeats i f es connected) = []"
      "reconnects (heartbeats i f es connected) = 0"
      "pings (heartbeats i f es connected) = map f [0..<length (filter isTick es)]"
      using c by simp_all
  }
  assume h: "answered f 0 (pre @ [Tick]) \<and> list_all (\<lambda>e. \<not> isTick e) seg
        \<and> Pong (f (length (filter isTick pre))) \<notin> set seg"
  let ?k = "length (filter isTick pre)"
  define s0 where "s0 = heartbeats i f pre connected"
  define s1 where "s1 = beat i f s0 Tick"
  from h have ap: "answered f 0 pre" by (simp add: answered_prefix)
  from healthy_run [OF ap c(1,2), of i] h
  have s0: "errorLines s0 = []" "reconnects s0 = 0" "pings s0 = map f [0..<?k]" "awaiting s0 = None"
    unfolding s0_def using c by simp_all
  have s1: "awaiting s1 = Some (f ?k)" "errorLines s1 = []" "reconnects s1 = 0"
    "pings s1 = map f [0..<Suc ?k]"
    using s0 by (simp_all add: s1_def)
  have r1: "heartbeats i f (pre @ [Tick]) connected = s1"
    unfolding heartbeats_append s0_def [symmetric] by (simp add: heartbeats_def s1_def)
  show "pings (heartbeats i f (pre @ [Tick]) connected) = map f [0..<Suc ?k]"
    unfolding r1 by (rule s1(4))
  have "pre @ Tick # seg @ [Tick] = (pre @ [Tick]) @ (seg @ [Tick])" by simp
  then have r2: "heartbeats i f (pre @ Tick # seg @ [Tick]) connected = heartbeats i f (seg @ [Tick]) s1"
    using heartbeats_append [of i f "pre @ [Tick]" "seg @ [Tick]" connected] r1 by simp
  from h have sg: "list_all (\<lambda>e. \<not> isTick e) seg" "Pong (f ?k) \<notin> set seg" by simp_all
  from missed_pong [OF s1(1) sg, of i f]
  show "errorLines (heartbeats i f (pre @ Tick # seg @ [Tick]) connected) = [noPong i]"
    "reconnects (heartbeats i f (pre @ Tick # seg @ [Tick]) connected) = 1"
    unfolding r2 using s1 by simp_all
qed

theorem heartbeat_no_pong_logged_once_witness:
  "answered examplePayload 0 [Tick, Pong ''p'', Tick, Pong ''pp'', Tick]
   \<and> errorLines (heartbeats ''30s'' examplePayload [Tick, Pong ''p'', Tick, Pong ''pp'', Tick] connected) = []
   \<and> answered examplePayload 0 ([Tick, Pong ''p''] @ [Tick])
   \<and> list_all (\<lambda>e. \<not> isTick e) [Pong ''p'']
   \<and> Pong (examplePayload (length (filter isTick [Tick, Pong ''p'']))) \<notin> set [Pong ''p'']
   \<and> errorLines (heartbeats ''30s'' examplePayload ([Tick, Pong ''p''] @ Tick # [Pong ''p''] @ [Tick]) connected)
       = [''no pong response in 30s'']
   \<and> reconnects (heartbeats ''30s'' examplePayload ([Tick, Pong ''p''] @ Tick # [Pong ''p''] @ [Tick]) connected) = 1"
proof -
  have a1: "answered examplePayload 0 [Tick, Pong ''p'', Tick, Pong ''pp'', Tick]"
    by code_simp
  have a2: "answered examplePayload 0 ([Tick, Pong ''p''] @ [Tick])
      \<and> list_all (\<lambda>e. \<not> isTick e) [Pong ''p'']
      \<and> Pong (examplePayload (length (filter isTick [Tick, Pong ''p'']))) \<notin> set [Pong ''p'']"
    by code_simp
  note T = heartbeat_no_pong_logged_once [of examplePayload "[Tick, Pong ''p'', Tick, Pong ''pp'', Tick]"
      "''30s''" "[Tick, Pong ''p'']" "[Pong ''p'']"]
  note H = mp [OF T [THEN conjunct1] a1]
  note M = mp [OF T [THEN conjunct2] a2]
  have n: "noPong ''30s'' = ''no pong response in 30s''" by (simp add: noPong_def)
  show ?thesis
    using a1 a2 H [THEN conjunct1] M [THEN conjunct2, THEN conjunct1]
      M [THEN conjunct2, THEN conjunct2] unfolding n
    by (intro conjI) (simp_all only: simp_thms)
qed

end
